theory Spec2Isabelle
  imports Main "HOL-Library.Word" "HOL-Library.Monad_Syntax"
begin

unbundle bit_operations_syntax


section \<open>hyperbahn/permissions_cache.js\<close>

text \<open>
  A stored token count is a JavaScript number. \<open>Num n\<close> is the double whose value is the
  integer \<open>n\<close> (every integer up to \<open>2 ^ 53\<close> in magnitude is one, beyond that only the
  multiples of the spacing of the doubles are); \<open>NaN\<close> is what \<open>undefined - 1\<close> gives. A
  missing key reads as \<open>undefined\<close>, which is \<open>None\<close>.
\<close>

datatype jsnum = Num int | NaN

text \<open>
  Modelled from the spec: \<open>PermissionsCache\<close> inherits from the \<open>lru-cache\<close> package,
  which is not among the source files; the specification describes it as a bounded cache
  with \<open>get\<close> and \<open>set\<close>. The entries are kept most recently used first. \<open>get\<close> of a
  present key and \<open>set\<close> make the key the most recently used one; a \<open>set\<close> of a new key
  that brings the number of entries above \<open>max\<close> drops the least recently used entries.
  \<open>max\<close> comes from the options of the constructor (a missing or zero \<open>max\<close> is no
  bound); the other options of the package (\<open>maxAge\<close>, \<open>length\<close>, \<open>dispose\<close>, \<open>stale\<close>)
  are taken at their defaults. A timer registered with \<open>setInterval\<close> is recorded by the key
  that its \<open>resetTokens\<close> resets and its period.
\<close>

record permissions_cache =
  lru_entries :: "(string \<times> jsnum) list"
  lru_max :: "nat option"
  bucketIntervals :: "(string \<times> nat) list"

record tag_set =
  tag_calling_service :: "string option"
  tag_service :: "string option"

record stat =
  stat_name :: string
  stat_type :: string
  stat_tags :: tag_set

definition BUCKET_RESET_DURATION :: nat where
  "BUCKET_RESET_DURATION = 1000"

definition NUM_TOKENS :: int where
  "NUM_TOKENS = 100"

text \<open>String concatenation turns \<open>undefined\<close> into the text \<open>undefined\<close>.\<close>

definition js_str :: "string option \<Rightarrow> string" where
  "js_str v = (case v of None \<Rightarrow> ''undefined'' | Some s \<Rightarrow> s)"

definition createCallsKey :: "string option \<Rightarrow> string option \<Rightarrow> string" where
  "createCallsKey caller callee = js_str caller @ ''_'' @ js_str callee"

definition lru_use :: "string \<Rightarrow> jsnum \<Rightarrow> (string \<times> jsnum) list \<Rightarrow> (string \<times> jsnum) list" where
  "lru_use key v es = (key, v) # filter (\<lambda>e. fst e \<noteq> key) es"

definition lru_trim :: "nat option \<Rightarrow> (string \<times> jsnum) list \<Rightarrow> (string \<times> jsnum) list" where
  "lru_trim m es = (case m of None \<Rightarrow> es | Some n \<Rightarrow> if n = 0 then es else take n es)"

definition lru_get :: "permissions_cache \<Rightarrow> string \<Rightarrow> jsnum option \<times> permissions_cache" where
  "lru_get self key =
     (case map_of (lru_entries self) key of
        None \<Rightarrow> (None, self)
      | Some v \<Rightarrow> (Some v, self\<lparr>lru_entries := lru_use key v (lru_entries self)\<rparr>))"

definition lru_set :: "permissions_cache \<Rightarrow> string \<Rightarrow> jsnum \<Rightarrow> permissions_cache" where
  "lru_set self key v =
     (if map_of (lru_entries self) key \<noteq> None
      then self\<lparr>lru_entries := lru_use key v (lru_entries self)\<rparr>
      else self\<lparr>lru_entries := lru_trim (lru_max self) ((key, v) # lru_entries self)\<rparr>)"

text \<open>
  \<open>tokens - 1\<close> is a subtraction of doubles. It is exact while the result is an integer of
  magnitude at most \<open>2 ^ 53\<close>. Beyond that the exact difference is rounded to the nearest
  double, a tie going to the even one: where the doubles are 2 apart (below \<open>2 ^ 54\<close> in
  magnitude) that is \<open>n\<close> when \<open>n\<close> is a multiple of 4 and \<open>n - 2\<close> otherwise, and from
  \<open>2 ^ 54\<close> on it is \<open>n\<close>. \<open>undefined - 1\<close> and \<open>NaN - 1\<close> are \<open>NaN\<close>.
\<close>

definition double_minus1 :: "int \<Rightarrow> int" where
  "double_minus1 n =
     (if - (2 ^ 53) < n \<and> n \<le> 2 ^ 53 then n - 1
      else if 2 ^ 54 \<le> \<bar>n\<bar> then n
      else if n mod 4 = 0 then n else n - 2)"

definition js_minus1 :: "jsnum option \<Rightarrow> jsnum" where
  "js_minus1 v = (case v of Some (Num n) \<Rightarrow> Num (double_minus1 n) | _ \<Rightarrow> NaN)"

text \<open>
  \<open>initializeTokenBucket\<close> calls \<open>resetTokens\<close> once and registers it with
  \<open>setInterval\<close>.
\<close>

definition resetTokens :: "permissions_cache \<Rightarrow> string \<Rightarrow> permissions_cache" where
  "resetTokens self key = lru_set self key (Num NUM_TOKENS)"

definition initializeTokenBucket :: "permissions_cache \<Rightarrow> string \<Rightarrow> permissions_cache" where
  "initializeTokenBucket self key =
     (let self1 = resetTokens self key
      in self1\<lparr>bucketIntervals := bucketIntervals self1 @ [(key, BUCKET_RESET_DURATION)]\<rparr>)"

definition increment :: "permissions_cache \<Rightarrow> stat \<Rightarrow> permissions_cache" where
  "increment self st =
     (if stat_name st = ''inbound.calls.recvd'' \<and> stat_type st = ''counter'' then
        (let key = createCallsKey (tag_calling_service (stat_tags st)) (tag_service (stat_tags st));
             (tokens, self1) = lru_get self key;
             (tokens2, self2) =
               (if tokens = None then lru_get (initializeTokenBucket self1 key) key
                else (tokens, self1))
         in lru_set self2 key (js_minus1 tokens2))
      else self)"

text \<open>
  Events and caches used as examples: a cache of at most two entries that is full, and a
  cache whose entry holds \<open>- (2 ^ 53)\<close>.
\<close>

definition inbound_call :: "string \<Rightarrow> string \<Rightarrow> stat" where
  "inbound_call caller callee =
     \<lparr>stat_name = ''inbound.calls.recvd'', stat_type = ''counter'',
      stat_tags = \<lparr>tag_calling_service = Some caller, tag_service = Some callee\<rparr>\<rparr>"

definition outbound_call :: stat where
  "outbound_call =
     \<lparr>stat_name = ''outbound.calls.sent'', stat_type = ''counter'',
      stat_tags = \<lparr>tag_calling_service = Some ''a'', tag_service = Some ''b''\<rparr>\<rparr>"

definition full_cache :: permissions_cache where
  "full_cache =
     \<lparr>lru_entries = [(''a_b'', Num 7), (''c_d'', Num 3)], lru_max = Some 2,
      bucketIntervals = [(''c_d'', 1000), (''a_b'', 1000)]\<rparr>"

definition stalled_cache :: permissions_cache where
  "stalled_cache =
     \<lparr>lru_entries = [(''a_b'', Num (- 9007199254740992))], lru_max = None,
      bucketIntervals = [(''a_b'', 1000)]\<rparr>"

section \<open>v2/call.js: bytes and strings\<close>

text \<open>
  A buffer is a list of bytes. A JavaScript string is taken as the list of its Unicode
  code points. \<open>Buffer.toString('utf8', start, end)\<close>, which \<open>fastBufferToString\<close>
  calls, belongs to the runtime and never fails: a byte that does not start a well-formed
  UTF-8 sequence decodes to U+FFFD (65533). \<open>utf8_step b bs\<close> decodes the sequence that
  starts with byte \<open>b\<close> followed by \<open>bs\<close> and returns the code point with the number of
  bytes of \<open>bs\<close> it used.
\<close>

type_synonym byte = "8 word"

type_synonym jsstring = "nat list"

definition cont_at :: "nat list \<Rightarrow> nat \<Rightarrow> nat option" where
  "cont_at bs i =
     (if i < length bs \<and> 128 \<le> bs ! i \<and> bs ! i < 192 then Some (bs ! i - 128) else None)"

definition utf8_step :: "nat \<Rightarrow> nat list \<Rightarrow> nat \<times> nat" where
  "utf8_step b bs =
     (if b < 128 then (b, 0)
      else if 194 \<le> b \<and> b < 224 then
        (case cont_at bs 0 of
           Some x \<Rightarrow> ((b - 192) * 64 + x, 1)
         | None \<Rightarrow> (65533, 0))
      else if 224 \<le> b \<and> b < 240 then
        (case (cont_at bs 0, cont_at bs 1) of
           (Some x, Some y) \<Rightarrow>
             (let cp = ((b - 224) * 64 + x) * 64 + y
              in if 2048 \<le> cp \<and> \<not> (55296 \<le> cp \<and> cp < 57344) then (cp, 2) else (65533, 0))
         | _ \<Rightarrow> (65533, 0))
      else if 240 \<le> b \<and> b < 245 then
        (case (cont_at bs 0, cont_at bs 1, cont_at bs 2) of
           (Some x, Some y, Some z) \<Rightarrow>
             (let cp = (((b - 240) * 64 + x) * 64 + y) * 64 + z
              in if 65536 \<le> cp \<and> cp < 1114112 then (cp, 3) else (65533, 0))
         | _ \<Rightarrow> (65533, 0))
      else (65533, 0))"

function utf8_dec :: "nat list \<Rightarrow> nat list" where
  "utf8_dec [] = []"
| "utf8_dec (b # bs) = fst (utf8_step b bs) # utf8_dec (drop (snd (utf8_step b bs)) bs)"
  by pat_completeness auto

termination
  by (relation "measure length") auto

definition utf8_decode :: "byte list \<Rightarrow> jsstring" where
  "utf8_decode bs = utf8_dec (map unat bs)"

text \<open>
  The writer of a string encodes each code point; a lone surrogate or a value beyond
  U+10FFFF is written as the three bytes of U+FFFD.
\<close>

definition is_scalar :: "nat \<Rightarrow> bool" where
  "is_scalar cp = (cp < 1114112 \<and> \<not> (55296 \<le> cp \<and> cp < 57344))"

definition utf8_enc1 :: "nat \<Rightarrow> nat list" where
  "utf8_enc1 cp =
     (if cp < 128 then [cp]
      else if cp < 2048 then [192 + cp div 64, 128 + cp mod 64]
      else if \<not> is_scalar cp then [239, 191, 189]
      else if cp < 65536 then [224 + cp div 4096, 128 + cp div 64 mod 64, 128 + cp mod 64]
      else [240 + cp div 262144, 128 + cp div 4096 mod 64, 128 + cp div 64 mod 64, 128 + cp mod 64])"

definition utf8_encode :: "jsstring \<Rightarrow> byte list" where
  "utf8_encode s = map word_of_nat (concat (map utf8_enc1 s))"

section \<open>v2/call.js: the lazy accessors\<close>

text \<open>
  \<open>TracingInfo\<close> holds the numbers read by \<open>readTracingValue\<close>; the two-element arrays
  are pairs.
\<close>

record TracingInfo =
  spanid :: "nat \<times> nat"
  parentid :: "nat \<times> nat"
  traceid :: "nat \<times> nat"
  traceflags :: nat

text \<open>
  The cache of a frame: \<open>null\<close> is \<open>None\<close>. A frame is its buffer, its declared size
  and its cache. \<open>nreads\<close> counts the reads made on the buffer, as a counting buffer would;
  the code never looks at it.
\<close>

record offset_cache =
  ttlValue :: "nat option"
  tracingValue :: "TracingInfo option"
  serviceStr :: "jsstring option"
  callerNameStr :: "jsstring option"
  routingDelegateStr :: "jsstring option"
  arg1Str :: "jsstring option"
  headerStartOffset :: "nat option"
  csumStartOffset :: "nat option"
  cnValueOffset :: "nat option"
  rdValueOffset :: "nat option"
  lastError :: "string option"

record frame =
  buffer :: "byte list"
  fsize :: nat
  cache :: offset_cache
  nreads :: nat

definition empty_cache :: offset_cache where
  "empty_cache =
     \<lparr>ttlValue = None, tracingValue = None, serviceStr = None, callerNameStr = None,
      routingDelegateStr = None, arg1Str = None, headerStartOffset = None,
      csumStartOffset = None, cnValueOffset = None, rdValueOffset = None, lastError = None\<rparr>"

text \<open>
  A number or \<open>null\<close> used as a condition: \<open>null\<close> and 0 are falsy.
\<close>

definition truthy :: "nat option \<Rightarrow> bool" where
  "truthy v = (case v of None \<Rightarrow> False | Some n \<Rightarrow> n \<noteq> 0)"

text \<open>
  \<open>buffer.readUInt8(offset, false)\<close> and its siblings check the offset against the
  length of the buffer and throw a \<open>RangeError\<close> beyond it; a thrown exception is the
  result \<open>None\<close> of an accessor.
\<close>

definition readUInt8 :: "frame \<Rightarrow> nat \<Rightarrow> (nat \<times> frame) option" where
  "readUInt8 f off =
     (if off + 1 \<le> length (buffer f)
      then Some (unat (buffer f ! off), f\<lparr>nreads := nreads f + 1\<rparr>)
      else None)"

definition readUInt16BE :: "frame \<Rightarrow> nat \<Rightarrow> (nat \<times> frame) option" where
  "readUInt16BE f off =
     (if off + 2 \<le> length (buffer f)
      then Some (unat (buffer f ! off) * 256 + unat (buffer f ! (off + 1)),
                 f\<lparr>nreads := nreads f + 1\<rparr>)
      else None)"

definition readUInt32BE :: "frame \<Rightarrow> nat \<Rightarrow> (nat \<times> frame) option" where
  "readUInt32BE f off =
     (if off + 4 \<le> length (buffer f)
      then Some (((unat (buffer f ! off) * 256 + unat (buffer f ! (off + 1))) * 256
                   + unat (buffer f ! (off + 2))) * 256 + unat (buffer f ! (off + 3)),
                 f\<lparr>nreads := nreads f + 1\<rparr>)
      else None)"

definition fastBufferToString :: "frame \<Rightarrow> nat \<Rightarrow> nat \<Rightarrow> jsstring \<times> frame" where
  "fastBufferToString f start end' =
     (utf8_decode (take (end' - start) (drop start (buffer f))), f\<lparr>nreads := nreads f + 1\<rparr>)"

text \<open>
  \<open>new Buffer('cn').readUInt16BE(0)\<close> and \<open>new Buffer('rd').readUInt16BE(0)\<close>.
\<close>

definition CN_VALUE :: nat where "CN_VALUE = 99 * 256 + 110"

definition RD_VALUE :: nat where "RD_VALUE = 114 * 256 + 100"

text \<open>
  Modelled from the spec: the checksum module (\<open>./checksum\<close>) is not among the source
  files. The type tags are None (0), CRC32 (1), Farmhash (2) and CRC32C (3); the digest
  of None is empty and every other digest has a fixed width, 4 bytes by the layout comment
  \<open>csumtype:1 (csum:4){0,1}\<close> of call.js; an unknown tag fails with InvalidChecksumType
  (here \<open>None\<close>).
\<close>

definition Checksum_Types_None :: nat where "Checksum_Types_None = 0"

definition Checksum_offsetWidth :: "nat \<Rightarrow> nat option" where
  "Checksum_offsetWidth t =
     (if t = 0 then Some 0 else if t = 1 \<or> t = 2 \<or> t = 3 then Some 4 else None)"

text \<open>
  \<open>Frame.Overhead\<close> comes from \<open>./frame\<close>, which is not among the source files: it is
  the parameter \<open>ov\<close> of every definition that uses it.
\<close>

definition flagsOffset :: "nat \<Rightarrow> nat" where "flagsOffset ov = ov"

definition ttlOffset :: "nat \<Rightarrow> nat" where "ttlOffset ov = flagsOffset ov + 1"

definition tracingOffset :: "nat \<Rightarrow> nat" where "tracingOffset ov = ttlOffset ov + 4"

definition serviceOffset :: "nat \<Rightarrow> nat" where "serviceOffset ov = tracingOffset ov + 25"

definition readTTL :: "nat \<Rightarrow> frame \<Rightarrow> (nat \<times> frame) option" where
  "readTTL ov f =
     (case ttlValue (cache f) of
        Some v \<Rightarrow> Some (v, f)
      | None \<Rightarrow>
          (let offset = ttlOffset ov in
           if fsize f < offset + 4 then Some (0, f)
           else do {
             (ttl, f1) \<leftarrow> readUInt32BE f offset;
             Some (ttl, f1\<lparr>cache := (cache f1)\<lparr>ttlValue := Some ttl\<rparr>\<rparr>)
           }))"

definition readTracingValue :: "nat \<Rightarrow> frame \<Rightarrow> (TracingInfo option \<times> frame) option" where
  "readTracingValue ov f =
     (case tracingValue (cache f) of
        Some v \<Rightarrow> Some (Some v, f)
      | None \<Rightarrow>
          (let offset = tracingOffset ov in
           if fsize f < offset + 25 then Some (None, f)
           else do {
             (spanid1, f1) \<leftarrow> readUInt32BE f offset;
             (spanid2, f2) \<leftarrow> readUInt32BE f1 (offset + 4);
             (parentid1, f3) \<leftarrow> readUInt32BE f2 (offset + 8);
             (parentid2, f4) \<leftarrow> readUInt32BE f3 (offset + 12);
             (traceid1, f5) \<leftarrow> readUInt32BE f4 (offset + 16);
             (traceid2, f6) \<leftarrow> readUInt32BE f5 (offset + 20);
             (flags, f7) \<leftarrow> readUInt8 f6 (offset + 24);
             let tracing = \<lparr>spanid = (spanid1, spanid2), parentid = (parentid1, parentid2),
                            traceid = (traceid1, traceid2), traceflags = flags\<rparr>;
             Some (Some tracing, f7\<lparr>cache := (cache f7)\<lparr>tracingValue := Some tracing\<rparr>\<rparr>)
           }))"

definition findHeaderStartOffset :: "nat \<Rightarrow> frame \<Rightarrow> (nat \<times> frame) option" where
  "findHeaderStartOffset ov f =
     (case headerStartOffset (cache f) of
        Some (Suc h) \<Rightarrow> Some (Suc h, f)
      | _ \<Rightarrow>
          (let offset = serviceOffset ov in
           if fsize f < offset + 1 then Some (0, f)
           else do {
             (strLength, f1) \<leftarrow> readUInt8 f offset;
             let offset1 = offset + (strLength + 1);
             Some (offset1, f1\<lparr>cache := (cache f1)\<lparr>headerStartOffset := Some offset1\<rparr>\<rparr>)
           }))"

definition readServiceStr :: "nat \<Rightarrow> frame \<Rightarrow> (jsstring option \<times> frame) option" where
  "readServiceStr ov f =
     (case serviceStr (cache f) of
        Some s \<Rightarrow> Some (Some s, f)
      | None \<Rightarrow> do {
          (hso, f1) \<leftarrow> findHeaderStartOffset ov f;
          if hso = 0 then Some (None, f1)
          else if fsize f1 < hso then Some (None, f1)
          else
            (let (serviceNameStr, f2) =
                   fastBufferToString f1 (serviceOffset ov + 1) hso
             in Some (Some serviceNameStr,
                      f2\<lparr>cache := (cache f2)\<lparr>serviceStr := Some serviceNameStr\<rparr>\<rparr>))
        })"

text \<open>
  \<open>keyValue = keyValue || frame.buffer.readUInt16BE(offset, false)\<close>: the buffer is
  read unless \<open>keyValue\<close> already holds a number other than 0.
\<close>

definition keyValue_or_read :: "nat option \<Rightarrow> frame \<Rightarrow> nat \<Rightarrow> (nat \<times> frame) option" where
  "keyValue_or_read keyValue f offset =
     (case keyValue of
        Some (Suc k) \<Rightarrow> Some (Suc k, f)
      | _ \<Rightarrow> readUInt16BE f offset)"

text \<open>
  The two blocks of the loop body that compare a two-byte key with \<open>CN_VALUE\<close> and
  \<open>RD_VALUE\<close>; \<open>offset\<close> is the offset of the key.
\<close>

definition matchKeys :: "frame \<Rightarrow> nat \<Rightarrow> nat \<Rightarrow> nat \<Rightarrow> nat \<Rightarrow> (nat \<times> nat \<times> frame) option" where
  "matchKeys f offset keyLength cnOff rdOff = do {
     (keyValue, cn1, f1) \<leftarrow>
       (if cnOff = 0 \<and> keyLength = 2 then do {
          (kv, g) \<leftarrow> keyValue_or_read None f offset;
          Some (Some kv, if kv = CN_VALUE then offset + keyLength else cnOff, g)
        } else Some (None, cnOff, f));
     (rd1, f2) \<leftarrow>
       (if rdOff = 0 \<and> keyLength = 2 then do {
          (kv, g) \<leftarrow> keyValue_or_read keyValue f1 offset;
          Some (if kv = RD_VALUE then offset + keyLength else rdOff, g)
        } else Some (rdOff, f1));
     Some (cn1, rd1, f2)
   }"

text \<open>
  One turn of the loop of \<open>scanAndSkipHeaders\<close>: the header at \<open>offset\<close>. The inner result
  \<open>None\<close> is \<open>return false\<close>; otherwise it is the offset after the header with the two
  value offsets.
\<close>

definition scanHeader :: "frame \<Rightarrow> nat \<Rightarrow> nat \<Rightarrow> nat \<Rightarrow> ((nat \<times> nat \<times> nat) option \<times> frame) option" where
  "scanHeader f offset cnOff rdOff =
     (if fsize f < offset + 1 then Some (None, f)
      else do {
        (keyLength, f1) \<leftarrow> readUInt8 f offset;
        let offset1 = offset + 1;
        if fsize f1 < keyLength + offset1 then Some (None, f1)
        else do {
          (cn1, rd1, f2) \<leftarrow> matchKeys f1 offset1 keyLength cnOff rdOff;
          let offset2 = offset1 + keyLength;
          if fsize f2 < offset2 + 1 then Some (None, f2)
          else do {
            (valueLength, f3) \<leftarrow> readUInt8 f2 offset2;
            let offset3 = offset2 + 1;
            if fsize f3 < valueLength + offset3 then Some (None, f3)
            else Some (Some (offset3 + valueLength, cn1, rd1), f3)
          }
        }
      })"

text \<open>
  The loop of \<open>scanAndSkipHeaders\<close>, by the number of headers still to scan.
\<close>

fun scanLoop :: "nat \<Rightarrow> frame \<Rightarrow> nat \<Rightarrow> nat \<Rightarrow> nat \<Rightarrow> ((nat \<times> nat \<times> nat) option \<times> frame) option" where
  "scanLoop 0 f offset cnOff rdOff = Some (Some (offset, cnOff, rdOff), f)"
| "scanLoop (Suc n) f offset cnOff rdOff = do {
     (r, f1) \<leftarrow> scanHeader f offset cnOff rdOff;
     (case r of
        None \<Rightarrow> Some (None, f1)
      | Some (offset', cn1, rd1) \<Rightarrow> scanLoop n f1 offset' cn1 rd1)
   }"

definition scanAndSkipHeaders :: "nat \<Rightarrow> frame \<Rightarrow> (bool \<times> frame) option" where
  "scanAndSkipHeaders ov f = do {
     (offset, f1) \<leftarrow> findHeaderStartOffset ov f;
     if offset = 0 then Some (False, f1)
     else if fsize f1 < offset + 1 then Some (False, f1)
     else do {
       (nh, f2) \<leftarrow> readUInt8 f1 offset;
       (r, f3) \<leftarrow> scanLoop nh f2 (offset + 1) 0 0;
       (case r of
          None \<Rightarrow> Some (False, f3)
        | Some (offset', cnOff, rdOff) \<Rightarrow>
            Some (True, f3\<lparr>cache := (cache f3)\<lparr>cnValueOffset := Some cnOff,
                                                 rdValueOffset := Some rdOff,
                                                 csumStartOffset := Some offset'\<rparr>\<rparr>))
     }
   }"

definition readUInt8String :: "frame \<Rightarrow> nat \<Rightarrow> (jsstring option \<times> frame) option" where
  "readUInt8String f offset =
     (if fsize f < offset + 1 then Some (None, f)
      else do {
        (valueLength, f1) \<leftarrow> readUInt8 f offset;
        let offset1 = offset + 1;
        let end' = offset1 + valueLength;
        if fsize f1 < end' then Some (None, f1)
        else (let (s, f2) = fastBufferToString f1 offset1 end' in Some (Some s, f2))
      })"

text \<open>
  \<open>if (!callerNameStr) return null\<close>: \<open>null\<close> and the empty string are falsy.
\<close>

definition falsy_str :: "jsstring option \<Rightarrow> bool" where
  "falsy_str s = (case s of None \<Rightarrow> True | Some cs \<Rightarrow> cs = [])"

definition readCallerNameStr :: "nat \<Rightarrow> frame \<Rightarrow> (jsstring option \<times> frame) option" where
  "readCallerNameStr ov f =
     (case callerNameStr (cache f) of
        Some s \<Rightarrow> Some (Some s, f)
      | None \<Rightarrow> do {
          (success, f1) \<leftarrow>
            (if cnValueOffset (cache f) = None then scanAndSkipHeaders ov f else Some (True, f));
          if \<not> success then Some (None, f1)
          else
            (case cnValueOffset (cache f1) of
               None \<Rightarrow> Some (None, f1)
             | Some 0 \<Rightarrow> Some (None, f1)
             | Some offset \<Rightarrow> do {
                 (str, f2) \<leftarrow> readUInt8String f1 offset;
                 if falsy_str str then Some (None, f2)
                 else Some (str, f2\<lparr>cache := (cache f2)\<lparr>callerNameStr := str\<rparr>\<rparr>)
               })
        })"

definition readRoutingDelegateStr :: "nat \<Rightarrow> frame \<Rightarrow> (jsstring option \<times> frame) option" where
  "readRoutingDelegateStr ov f =
     (case routingDelegateStr (cache f) of
        Some s \<Rightarrow> Some (Some s, f)
      | None \<Rightarrow> do {
          (success, f1) \<leftarrow>
            (if rdValueOffset (cache f) = None then scanAndSkipHeaders ov f else Some (True, f));
          if \<not> success then Some (None, f1)
          else
            (case rdValueOffset (cache f1) of
               None \<Rightarrow> Some (None, f1)
             | Some 0 \<Rightarrow> Some (None, f1)
             | Some offset \<Rightarrow> do {
                 (str, f2) \<leftarrow> readUInt8String f1 offset;
                 if falsy_str str then Some (None, f2)
                 else Some (str, f2\<lparr>cache := (cache f2)\<lparr>routingDelegateStr := str\<rparr>\<rparr>)
               })
        })"

definition set_lastError :: "string \<Rightarrow> frame \<Rightarrow> frame" where
  "set_lastError msg f = f\<lparr>cache := (cache f)\<lparr>lastError := Some msg\<rparr>\<rparr>"

text \<open>
  In arithmetic \<open>null\<close> counts as 0.
\<close>

definition js_num :: "nat option \<Rightarrow> nat" where
  "js_num v = (case v of None \<Rightarrow> 0 | Some n \<Rightarrow> n)"

definition readArg1Str :: "nat \<Rightarrow> frame \<Rightarrow> (jsstring option \<times> frame) option" where
  "readArg1Str ov f =
     (case arg1Str (cache f) of
        Some s \<Rightarrow> Some (Some s, f)
      | None \<Rightarrow> do {
          (success, f1) \<leftarrow>
            (if \<not> truthy (csumStartOffset (cache f)) then scanAndSkipHeaders ov f
             else Some (True, f));
          if \<not> success then Some (None, set_lastError ''Could not scan & skip headers'' f1)
          else
            (let offset = js_num (csumStartOffset (cache f1)) in
             if fsize f1 < offset + 1
             then Some (None, set_lastError ''Could not read csum type'' f1)
             else do {
               (csumType, f2) \<leftarrow> readUInt8 f1 offset;
               let offset1 = offset + 1;
               offset2 \<leftarrow>
                 (if csumType \<noteq> Checksum_Types_None
                  then map_option (\<lambda>w. offset1 + w) (Checksum_offsetWidth csumType)
                  else Some offset1);
               if fsize f2 < offset2 + 2
               then Some (None, set_lastError ''Could not read arg1 size'' f2)
               else do {
                 (arg1Length, f3) \<leftarrow> readUInt16BE f2 offset2;
                 let offset3 = offset2 + 2;
                 let end' = offset3 + arg1Length;
                 if fsize f3 < end'
                 then Some (None, set_lastError ''Could not read arg1 itself'' f3)
                 else
                   (let (str, f4) = fastBufferToString f3 offset3 end'
                    in Some (Some str, f4\<lparr>cache := (cache f4)\<lparr>arg1Str := Some str\<rparr>\<rparr>))
               }
             })
        })"

section \<open>v2/call.js: the structured reader and writer\<close>

text \<open>
  The error kinds of the codec. A read returns the value with the offset after it, a
  write returns the buffer with the offset after the written bytes, and each returns the
  error alone when it fails.
\<close>

datatype error =
  BufferTooShort | InvalidTTL | LengthOverflow | InvalidChecksumType
  | InvalidUtf8 | TrailingBytes | ChecksumMismatch

type_synonym 'a read_result = "error + ('a \<times> nat)"

type_synonym write_result = "error + (byte list \<times> nat)"

text \<open>
  The bodies. \<open>ttl\<close>, the tracing ids and the one-byte fields are words of their
  width; headers keep their order and their duplicates.
\<close>

record Tracing =
  tr_spanid :: "32 word \<times> 32 word"
  tr_parentid :: "32 word \<times> 32 word"
  tr_traceid :: "32 word \<times> 32 word"
  tr_flags :: byte

record Checksum =
  csum_type :: byte
  csum_digest :: "byte list"

record CallRequest =
  req_flags :: byte
  req_ttl :: "32 word"
  req_tracing :: Tracing
  req_service :: jsstring
  req_headers :: "(jsstring \<times> jsstring) list"
  req_csum :: Checksum
  req_args :: "byte list list"

record CallResponse =
  res_flags :: byte
  res_code :: byte
  res_tracing :: Tracing
  res_headers :: "(jsstring \<times> jsstring) list"
  res_csum :: Checksum
  res_args :: "byte list list"

text \<open>
  Modelled from the spec: \<open>./call_flags\<close> is not among the source files; the Fragment
  flag is bit 0.
\<close>

definition CallFlags_Fragment :: byte where
  "CallFlags_Fragment = 1"

subsection \<open>The codecs that call.js composes\<close>

text \<open>
  Modelled from the spec: the primitive readers and writers of \<open>bufrw\<close> (UInt8,
  UInt32BE, \<open>str1\<close>) and of \<open>./args\<close> (\<open>arg~2\<close>) are not among the source files. An
  integer is big-endian and of fixed width; a read fails with BufferTooShort when fewer
  bytes remain, a write when the destination lacks the space.
\<close>

definition u16be_at :: "byte list \<Rightarrow> nat \<Rightarrow> nat" where
  "u16be_at buf off = unat (buf ! off) * 256 + unat (buf ! (off + 1))"

definition u32be_at :: "byte list \<Rightarrow> nat \<Rightarrow> nat" where
  "u32be_at buf off =
     ((unat (buf ! off) * 256 + unat (buf ! (off + 1))) * 256 + unat (buf ! (off + 2))) * 256
       + unat (buf ! (off + 3))"

definition u16_bytes :: "nat \<Rightarrow> byte list" where
  "u16_bytes n = [word_of_nat (n div 256), word_of_nat (n mod 256)]"

definition u32_bytes :: "32 word \<Rightarrow> byte list" where
  "u32_bytes w =
     (let n = unat w
      in [word_of_nat (n div 16777216), word_of_nat (n div 65536 mod 256),
          word_of_nat (n div 256 mod 256), word_of_nat (n mod 256)])"

definition UInt8_readFrom :: "byte list \<Rightarrow> nat \<Rightarrow> byte read_result" where
  "UInt8_readFrom buf off =
     (if off + 1 \<le> length buf then Inr (buf ! off, off + 1) else Inl BufferTooShort)"

definition UInt16BE_readFrom :: "byte list \<Rightarrow> nat \<Rightarrow> nat read_result" where
  "UInt16BE_readFrom buf off =
     (if off + 2 \<le> length buf then Inr (u16be_at buf off, off + 2) else Inl BufferTooShort)"

definition UInt32BE_readFrom :: "byte list \<Rightarrow> nat \<Rightarrow> (32 word) read_result" where
  "UInt32BE_readFrom buf off =
     (if off + 4 \<le> length buf then Inr (word_of_nat (u32be_at buf off), off + 4)
      else Inl BufferTooShort)"

definition bytes_readFrom :: "nat \<Rightarrow> byte list \<Rightarrow> nat \<Rightarrow> (byte list) read_result" where
  "bytes_readFrom n buf off =
     (if off + n \<le> length buf then Inr (take n (drop off buf), off + n) else Inl BufferTooShort)"

definition UInt8_writeInto :: "byte \<Rightarrow> byte list \<Rightarrow> nat \<Rightarrow> write_result" where
  "UInt8_writeInto v buf off =
     (if off + 1 \<le> length buf then Inr (buf[off := v], off + 1) else Inl BufferTooShort)"

definition bytes_writeInto :: "byte list \<Rightarrow> byte list \<Rightarrow> nat \<Rightarrow> write_result" where
  "bytes_writeInto bs buf off =
     (if off + length bs \<le> length buf
      then Inr (take off buf @ bs @ drop (off + length bs) buf, off + length bs)
      else Inl BufferTooShort)"

definition UInt16BE_writeInto :: "nat \<Rightarrow> byte list \<Rightarrow> nat \<Rightarrow> write_result" where
  "UInt16BE_writeInto n buf off =
     (if 65535 < n then Inl LengthOverflow else bytes_writeInto (u16_bytes n) buf off)"

definition UInt32BE_writeInto :: "32 word \<Rightarrow> byte list \<Rightarrow> nat \<Rightarrow> write_result" where
  "UInt32BE_writeInto w buf off = bytes_writeInto (u32_bytes w) buf off"

text \<open>
  Modelled from the spec: \<open>str1\<close> is a one-byte length and that many bytes, decoded as
  UTF-8; writing a string whose encoding is longer than 255 bytes fails with
  LengthOverflow.
\<close>

definition str1_readFrom :: "byte list \<Rightarrow> nat \<Rightarrow> jsstring read_result" where
  "str1_readFrom buf off =
     (case UInt8_readFrom buf off of
        Inl e \<Rightarrow> Inl e
      | Inr (len, off1) \<Rightarrow>
          (case bytes_readFrom (unat len) buf off1 of
             Inl e \<Rightarrow> Inl e
           | Inr (bs, off2) \<Rightarrow> Inr (utf8_decode bs, off2)))"

definition str1_writeInto :: "jsstring \<Rightarrow> byte list \<Rightarrow> nat \<Rightarrow> write_result" where
  "str1_writeInto s buf off =
     (let bs = utf8_encode s in
      if 255 < length bs then Inl LengthOverflow
      else
        (case UInt8_writeInto (word_of_nat (length bs)) buf off of
           Inl e \<Rightarrow> Inl e
         | Inr (buf1, off1) \<Rightarrow> bytes_writeInto bs buf1 off1))"

text \<open>
  Modelled from the spec: \<open>arg2\<close> is a two-byte big-endian length and that many
  bytes.
\<close>

definition arg2_readFrom :: "byte list \<Rightarrow> nat \<Rightarrow> (byte list) read_result" where
  "arg2_readFrom buf off =
     (case UInt16BE_readFrom buf off of
        Inl e \<Rightarrow> Inl e
      | Inr (len, off1) \<Rightarrow> bytes_readFrom len buf off1)"

definition arg2_writeInto :: "byte list \<Rightarrow> byte list \<Rightarrow> nat \<Rightarrow> write_result" where
  "arg2_writeInto a buf off =
     (case UInt16BE_writeInto (length a) buf off of
        Inl e \<Rightarrow> Inl e
      | Inr (buf1, off1) \<Rightarrow> bytes_writeInto a buf1 off1)"

text \<open>
  Modelled from the spec: the tracing codec (\<open>./tracing\<close>) is not among the source
  files. Its record is 25 bytes: spanid, parentid and traceid, each as a high and a low
  32-bit half, then the trace flags.
\<close>

definition Tracing_byteLength :: nat where
  "Tracing_byteLength = 25"

definition Tracing_readFrom :: "byte list \<Rightarrow> nat \<Rightarrow> Tracing read_result" where
  "Tracing_readFrom buf off =
     (if off + 25 \<le> length buf then
        Inr (\<lparr>tr_spanid = (word_of_nat (u32be_at buf off), word_of_nat (u32be_at buf (off + 4))),
              tr_parentid = (word_of_nat (u32be_at buf (off + 8)), word_of_nat (u32be_at buf (off + 12))),
              tr_traceid = (word_of_nat (u32be_at buf (off + 16)), word_of_nat (u32be_at buf (off + 20))),
              tr_flags = buf ! (off + 24)\<rparr>, off + 25)
      else Inl BufferTooShort)"

definition Tracing_bytes :: "Tracing \<Rightarrow> byte list" where
  "Tracing_bytes t =
     u32_bytes (fst (tr_spanid t)) @ u32_bytes (snd (tr_spanid t)) @
     u32_bytes (fst (tr_parentid t)) @ u32_bytes (snd (tr_parentid t)) @
     u32_bytes (fst (tr_traceid t)) @ u32_bytes (snd (tr_traceid t)) @ [tr_flags t]"

definition Tracing_writeInto :: "Tracing \<Rightarrow> byte list \<Rightarrow> nat \<Rightarrow> write_result" where
  "Tracing_writeInto t buf off = bytes_writeInto (Tracing_bytes t) buf off"

text \<open>
  Modelled from the spec: the header codec (\<open>./header\<close>) is not among the source
  files. A header list is the count \<open>nh\<close> in one byte and \<open>nh\<close> entries, each a
  \<open>str1\<close> key and a \<open>str1\<close> value, in wire order.
\<close>

fun header1_readEntries :: "nat \<Rightarrow> byte list \<Rightarrow> nat \<Rightarrow> ((jsstring \<times> jsstring) list) read_result" where
  "header1_readEntries 0 buf off = Inr ([], off)"
| "header1_readEntries (Suc n) buf off =
     (case str1_readFrom buf off of
        Inl e \<Rightarrow> Inl e
      | Inr (k, off1) \<Rightarrow>
          (case str1_readFrom buf off1 of
             Inl e \<Rightarrow> Inl e
           | Inr (v, off2) \<Rightarrow>
               (case header1_readEntries n buf off2 of
                  Inl e \<Rightarrow> Inl e
                | Inr (hs, off3) \<Rightarrow> Inr ((k, v) # hs, off3))))"

definition header1_readFrom :: "byte list \<Rightarrow> nat \<Rightarrow> ((jsstring \<times> jsstring) list) read_result" where
  "header1_readFrom buf off =
     (case UInt8_readFrom buf off of
        Inl e \<Rightarrow> Inl e
      | Inr (nh, off1) \<Rightarrow> header1_readEntries (unat nh) buf off1)"

fun header1_writeEntries :: "(jsstring \<times> jsstring) list \<Rightarrow> byte list \<Rightarrow> nat \<Rightarrow> write_result" where
  "header1_writeEntries [] buf off = Inr (buf, off)"
| "header1_writeEntries ((k, v) # hs) buf off =
     (case str1_writeInto k buf off of
        Inl e \<Rightarrow> Inl e
      | Inr (buf1, off1) \<Rightarrow>
          (case str1_writeInto v buf1 off1 of
             Inl e \<Rightarrow> Inl e
           | Inr (buf2, off2) \<Rightarrow> header1_writeEntries hs buf2 off2))"

definition header1_writeInto :: "(jsstring \<times> jsstring) list \<Rightarrow> byte list \<Rightarrow> nat \<Rightarrow> write_result" where
  "header1_writeInto hs buf off =
     (if 255 < length hs then Inl LengthOverflow
      else
        (case UInt8_writeInto (word_of_nat (length hs)) buf off of
           Inl e \<Rightarrow> Inl e
         | Inr (buf1, off1) \<Rightarrow> header1_writeEntries hs buf1 off1))"

text \<open>
  Modelled from the spec: a checksum is its type tag in one byte and, for a type other
  than None, a digest of the width of the type. Writing a digest of another width fails.
\<close>

definition Checksum_readFrom :: "byte list \<Rightarrow> nat \<Rightarrow> Checksum read_result" where
  "Checksum_readFrom buf off =
     (case UInt8_readFrom buf off of
        Inl e \<Rightarrow> Inl e
      | Inr (t, off1) \<Rightarrow>
          (case Checksum_offsetWidth (unat t) of
             None \<Rightarrow> Inl InvalidChecksumType
           | Some w \<Rightarrow>
               (case bytes_readFrom w buf off1 of
                  Inl e \<Rightarrow> Inl e
                | Inr (d, off2) \<Rightarrow> Inr (\<lparr>csum_type = t, csum_digest = d\<rparr>, off2))))"

definition Checksum_writeInto :: "Checksum \<Rightarrow> byte list \<Rightarrow> nat \<Rightarrow> write_result" where
  "Checksum_writeInto c buf off =
     (case Checksum_offsetWidth (unat (csum_type c)) of
        None \<Rightarrow> Inl InvalidChecksumType
      | Some w \<Rightarrow>
          if length (csum_digest c) \<noteq> w then Inl ChecksumMismatch
          else
            (case UInt8_writeInto (csum_type c) buf off of
               Inl e \<Rightarrow> Inl e
             | Inr (buf1, off1) \<Rightarrow> bytes_writeInto (csum_digest c) buf1 off1))"

text \<open>
  Modelled from the spec: the args codec (\<open>./args\<close>) is not among the source files.
  Reading takes \<open>arg~2\<close> entries until the end of the buffer; writing writes the
  checksum and each argument, and sets the Fragment bit of \<open>body.flags\<close> when the writer
  was told that more bodies of the call follow (\<open>hasCont\<close>).
\<close>

function args_readAll :: "byte list \<Rightarrow> nat \<Rightarrow> (byte list list) read_result" where
  "args_readAll buf off =
     (if length buf \<le> off then Inr ([], off)
      else
        (case arg2_readFrom buf off of
           Inl e \<Rightarrow> Inl e
         | Inr (a, off1) \<Rightarrow>
             (case args_readAll buf off1 of
                Inl e \<Rightarrow> Inl e
              | Inr (as, off2) \<Rightarrow> Inr (a # as, off2))))"
  by pat_completeness auto

termination
  by (relation "measure (\<lambda>(buf, off). length buf - off)")
     (auto simp: arg2_readFrom_def UInt16BE_readFrom_def bytes_readFrom_def split: if_splits)

fun args_writeAll :: "byte list list \<Rightarrow> byte list \<Rightarrow> nat \<Rightarrow> write_result" where
  "args_writeAll [] buf off = Inr (buf, off)"
| "args_writeAll (a # as) buf off =
     (case arg2_writeInto a buf off of
        Inl e \<Rightarrow> Inl e
      | Inr (buf1, off1) \<Rightarrow> args_writeAll as buf1 off1)"

definition argsrw_readFrom :: "byte list \<Rightarrow> nat \<Rightarrow> (Checksum \<times> byte list list) read_result" where
  "argsrw_readFrom buf off =
     (case Checksum_readFrom buf off of
        Inl e \<Rightarrow> Inl e
      | Inr (c, off1) \<Rightarrow>
          (case args_readAll buf off1 of
             Inl e \<Rightarrow> Inl e
           | Inr (as, off2) \<Rightarrow> Inr ((c, as), off2)))"

definition argsrw_writeInto ::
  "bool \<Rightarrow> byte \<Rightarrow> Checksum \<Rightarrow> byte list list \<Rightarrow> byte list \<Rightarrow> nat \<Rightarrow> error + (byte list \<times> nat \<times> byte)" where
  "argsrw_writeInto hasCont flags c as buf off =
     (case Checksum_writeInto c buf off of
        Inl e \<Rightarrow> Inl e
      | Inr (buf1, off1) \<Rightarrow>
          (case args_writeAll as buf1 off1 of
             Inl e \<Rightarrow> Inl e
           | Inr (buf2, off2) \<Rightarrow>
               Inr (buf2, off2, if hasCont then flags OR CallFlags_Fragment else flags)))"

subsection \<open>readCallReqFrom, writeCallReqInto, readCallResFrom, writeCallResInto\<close>

text \<open>
  \<open>argsrw.readFrom\<close> fills \<open>body.csum\<close> and \<open>body.args\<close>, and \<open>argsrw.writeInto\<close> may
  change \<open>body.flags\<close>: the writers return the body as it is after the call.
\<close>

definition readCallReqFrom :: "byte list \<Rightarrow> nat \<Rightarrow> CallRequest read_result" where
  "readCallReqFrom buf offset =
     (case UInt8_readFrom buf offset of
        Inl e \<Rightarrow> Inl e
      | Inr (flags, offset1) \<Rightarrow>
     (case UInt32BE_readFrom buf offset1 of
        Inl e \<Rightarrow> Inl e
      | Inr (ttl, offset2) \<Rightarrow>
     if ttl \<le> 0 then Inl InvalidTTL else
     (case Tracing_readFrom buf offset2 of
        Inl e \<Rightarrow> Inl e
      | Inr (tracing, offset3) \<Rightarrow>
     (case str1_readFrom buf offset3 of
        Inl e \<Rightarrow> Inl e
      | Inr (service, offset4) \<Rightarrow>
     (case header1_readFrom buf offset4 of
        Inl e \<Rightarrow> Inl e
      | Inr (headers, offset5) \<Rightarrow>
     (case argsrw_readFrom buf offset5 of
        Inl e \<Rightarrow> Inl e
      | Inr ((csum, args), offset6) \<Rightarrow>
          Inr (\<lparr>req_flags = flags, req_ttl = ttl, req_tracing = tracing,
                req_service = service, req_headers = headers, req_csum = csum,
                req_args = args\<rparr>, offset6)))))))"

definition writeCallReqInto ::
  "bool \<Rightarrow> CallRequest \<Rightarrow> byte list \<Rightarrow> nat \<Rightarrow> error + (byte list \<times> nat \<times> CallRequest)" where
  "writeCallReqInto hasCont body buf offset =
     (let start = offset;
          offset0 = offset + 1
      in
      if req_ttl body \<le> 0 then Inl InvalidTTL else
      (case UInt32BE_writeInto (req_ttl body) buf offset0 of
         Inl e \<Rightarrow> Inl e
       | Inr (buf1, offset1) \<Rightarrow>
      (case Tracing_writeInto (req_tracing body) buf1 offset1 of
         Inl e \<Rightarrow> Inl e
       | Inr (buf2, offset2) \<Rightarrow>
      (case str1_writeInto (req_service body) buf2 offset2 of
         Inl e \<Rightarrow> Inl e
       | Inr (buf3, offset3) \<Rightarrow>
      (case header1_writeInto (req_headers body) buf3 offset3 of
         Inl e \<Rightarrow> Inl e
       | Inr (buf4, offset4) \<Rightarrow>
      (case argsrw_writeInto hasCont (req_flags body) (req_csum body) (req_args body) buf4 offset4 of
         Inl e \<Rightarrow> Inl e
       | Inr (buf5, offset5, flags') \<Rightarrow>
      (case UInt8_writeInto flags' buf5 start of
         Inl e \<Rightarrow> Inl e
       | Inr (buf6, _) \<Rightarrow> Inr (buf6, offset5, body\<lparr>req_flags := flags'\<rparr>))))))))"

definition readCallResFrom :: "byte list \<Rightarrow> nat \<Rightarrow> CallResponse read_result" where
  "readCallResFrom buf offset =
     (case UInt8_readFrom buf offset of
        Inl e \<Rightarrow> Inl e
      | Inr (flags, offset1) \<Rightarrow>
     (case UInt8_readFrom buf offset1 of
        Inl e \<Rightarrow> Inl e
      | Inr (code, offset2) \<Rightarrow>
     (case Tracing_readFrom buf offset2 of
        Inl e \<Rightarrow> Inl e
      | Inr (tracing, offset3) \<Rightarrow>
     (case header1_readFrom buf offset3 of
        Inl e \<Rightarrow> Inl e
      | Inr (headers, offset4) \<Rightarrow>
     (case argsrw_readFrom buf offset4 of
        Inl e \<Rightarrow> Inl e
      | Inr ((csum, args), offset5) \<Rightarrow>
          Inr (\<lparr>res_flags = flags, res_code = code, res_tracing = tracing,
                res_headers = headers, res_csum = csum, res_args = args\<rparr>, offset5))))))"

definition writeCallResInto ::
  "bool \<Rightarrow> CallResponse \<Rightarrow> byte list \<Rightarrow> nat \<Rightarrow> error + (byte list \<times> nat \<times> CallResponse)" where
  "writeCallResInto hasCont body buf offset =
     (let start = offset;
          offset0 = offset + 1
      in
      (case UInt8_writeInto (res_code body) buf offset0 of
         Inl e \<Rightarrow> Inl e
       | Inr (buf1, offset1) \<Rightarrow>
      (case Tracing_writeInto (res_tracing body) buf1 offset1 of
         Inl e \<Rightarrow> Inl e
       | Inr (buf2, offset2) \<Rightarrow>
      (case header1_writeInto (res_headers body) buf2 offset2 of
         Inl e \<Rightarrow> Inl e
       | Inr (buf3, offset3) \<Rightarrow>
      (case argsrw_writeInto hasCont (res_flags body) (res_csum body) (res_args body) buf3 offset3 of
         Inl e \<Rightarrow> Inl e
       | Inr (buf4, offset4, flags') \<Rightarrow>
      (case UInt8_writeInto flags' buf4 start of
         Inl e \<Rightarrow> Inl e
       | Inr (buf5, _) \<Rightarrow> Inr (buf5, offset4, body\<lparr>res_flags := flags'\<rparr>)))))))"

section \<open>Notions used in the proofs\<close>

text \<open>
  \<open>overwrite buf off bs\<close> is \<open>buf\<close> with \<open>bs\<close> in place of the bytes from \<open>off\<close>.
  \<open>writes W bs\<close>: wherever it fits, the writer \<open>W\<close> puts exactly \<open>bs\<close>. \<open>reads_as R bs v\<close>:
  the reader \<open>R\<close> returns \<open>v\<close> wherever the buffer holds \<open>bs\<close>. \<open>write_frame W\<close>: a
  successful \<open>W\<close> keeps the length of the buffer and the bytes before its offset.
\<close>

definition overwrite :: "byte list \<Rightarrow> nat \<Rightarrow> byte list \<Rightarrow> byte list" where
  "overwrite buf off bs = take off buf @ bs @ drop (off + length bs) buf"

definition writes :: "(byte list \<Rightarrow> nat \<Rightarrow> write_result) \<Rightarrow> byte list \<Rightarrow> bool" where
  "writes W bs = (\<forall>buf off. off + length bs \<le> length buf \<longrightarrow>
                    W buf off = Inr (overwrite buf off bs, off + length bs))"

text \<open>
  The bytes of each part of a body, and the bodies that can be written: every string is
  a list of Unicode scalar values whose encoding fits its one-byte length, there are at
  most 255 headers, the digest has the width of its checksum type, and every argument
  fits its two-byte length.
\<close>

definition str1_bytes :: "jsstring \<Rightarrow> byte list" where
  "str1_bytes s = word_of_nat (length (utf8_encode s)) # utf8_encode s"

definition wf_str1 :: "jsstring \<Rightarrow> bool" where
  "wf_str1 s = (list_all is_scalar s \<and> length (utf8_encode s) \<le> 255)"

definition hdr_bytes :: "(jsstring \<times> jsstring) list \<Rightarrow> byte list" where
  "hdr_bytes hs = concat (map (\<lambda>(k, v). str1_bytes k @ str1_bytes v) hs)"

definition wf_headers :: "(jsstring \<times> jsstring) list \<Rightarrow> bool" where
  "wf_headers hs = (length hs \<le> 255 \<and> list_all (\<lambda>(k, v). wf_str1 k \<and> wf_str1 v) hs)"

definition header1_bytes :: "(jsstring \<times> jsstring) list \<Rightarrow> byte list" where
  "header1_bytes hs = word_of_nat (length hs) # hdr_bytes hs"

definition Checksum_bytes :: "Checksum \<Rightarrow> byte list" where
  "Checksum_bytes c = csum_type c # csum_digest c"

definition wf_csum :: "Checksum \<Rightarrow> bool" where
  "wf_csum c = (Checksum_offsetWidth (unat (csum_type c)) = Some (length (csum_digest c)))"

definition arg2_bytes :: "byte list \<Rightarrow> byte list" where
  "arg2_bytes a = u16_bytes (length a) @ a"

definition args_bytes :: "byte list list \<Rightarrow> byte list" where
  "args_bytes as = concat (map arg2_bytes as)"

definition wf_args :: "byte list list \<Rightarrow> bool" where
  "wf_args as = list_all (\<lambda>a. length a \<le> 65535) as"

definition reads_as :: "(byte list \<Rightarrow> nat \<Rightarrow> 'a read_result) \<Rightarrow> byte list \<Rightarrow> 'a \<Rightarrow> bool" where
  "reads_as R bs v = (\<forall>buf off rest. off \<le> length buf \<longrightarrow> drop off buf = bs @ rest \<longrightarrow>
                       R buf off = Inr (v, off + length bs))"

definition req_body_bytes :: "CallRequest \<Rightarrow> byte list" where
  "req_body_bytes body =
     u32_bytes (req_ttl body) @ Tracing_bytes (req_tracing body) @ str1_bytes (req_service body) @
     header1_bytes (req_headers body) @ Checksum_bytes (req_csum body) @ args_bytes (req_args body)"

definition wf_req :: "CallRequest \<Rightarrow> bool" where
  "wf_req body =
     (0 < req_ttl body \<and> wf_str1 (req_service body) \<and> wf_headers (req_headers body) \<and>
      wf_csum (req_csum body) \<and> wf_args (req_args body))"

definition written_flags :: "bool \<Rightarrow> byte \<Rightarrow> byte" where
  "written_flags hasCont flags = (if hasCont then flags OR CallFlags_Fragment else flags)"

definition write_frame :: "(byte list \<Rightarrow> nat \<Rightarrow> write_result) \<Rightarrow> bool" where
  "write_frame W = (\<forall>buf off buf' off'. W buf off = Inr (buf', off') \<longrightarrow>
      off \<le> off' \<and> length buf' = length buf \<and> take off buf' = take off buf)"

subsection \<open>callReqLength and callResLength\<close>

text \<open>
  Modelled from the spec: the \<open>byteLength\<close> of each codec that call.js composes is the
  number of bytes its writer writes.
\<close>

type_synonym length_result = "error + nat"

definition Tracing_RW_byteLength :: "Tracing \<Rightarrow> length_result" where
  "Tracing_RW_byteLength t = Inr Tracing_byteLength"

definition str1_byteLength :: "jsstring \<Rightarrow> length_result" where
  "str1_byteLength s = Inr (1 + length (utf8_encode s))"

definition header1_byteLength :: "(jsstring \<times> jsstring) list \<Rightarrow> length_result" where
  "header1_byteLength hs =
     Inr (1 + sum_list (map (\<lambda>(k, v). (1 + length (utf8_encode k)) + (1 + length (utf8_encode v))) hs))"

definition argsrw_byteLength :: "Checksum \<Rightarrow> byte list list \<Rightarrow> length_result" where
  "argsrw_byteLength c as =
     (case Checksum_offsetWidth (unat (csum_type c)) of
        None \<Rightarrow> Inl InvalidChecksumType
      | Some w \<Rightarrow> Inr (1 + w + sum_list (map (\<lambda>a. 2 + length a) as)))"

definition callReqLength :: "CallRequest \<Rightarrow> length_result" where
  "callReqLength body =
     (let length0 = 0 + 1 + 4 in
      case Tracing_RW_byteLength (req_tracing body) of
        Inl e \<Rightarrow> Inl e
      | Inr n1 \<Rightarrow>
     (case str1_byteLength (req_service body) of
        Inl e \<Rightarrow> Inl e
      | Inr n2 \<Rightarrow>
     (case header1_byteLength (req_headers body) of
        Inl e \<Rightarrow> Inl e
      | Inr n3 \<Rightarrow>
     (case argsrw_byteLength (req_csum body) (req_args body) of
        Inl e \<Rightarrow> Inl e
      | Inr n4 \<Rightarrow> Inr (n4 + (length0 + n1 + n2 + n3))))))"

definition callResLength :: "CallResponse \<Rightarrow> length_result" where
  "callResLength body =
     (let length0 = 0 + 1 + 1 in
      case Tracing_RW_byteLength (res_tracing body) of
        Inl e \<Rightarrow> Inl e
      | Inr n1 \<Rightarrow>
     (case header1_byteLength (res_headers body) of
        Inl e \<Rightarrow> Inl e
      | Inr n2 \<Rightarrow>
     (case argsrw_byteLength (res_csum body) (res_args body) of
        Inl e \<Rightarrow> Inl e
      | Inr n3 \<Rightarrow> Inr (n3 + (length0 + n1 + n2)))))"

definition res_body_bytes :: "CallResponse \<Rightarrow> byte list" where
  "res_body_bytes body =
     [res_code body] @ Tracing_bytes (res_tracing body) @ header1_bytes (res_headers body) @
     Checksum_bytes (res_csum body) @ args_bytes (res_args body)"

definition wf_res :: "CallResponse \<Rightarrow> bool" where
  "wf_res body =
     (wf_headers (res_headers body) \<and> wf_csum (res_csum body) \<and> wf_args (res_args body))"

text \<open>
  The bodies of the scenarios S1 and S5 of the specification.
\<close>

definition zero_tracing :: Tracing where
  "zero_tracing = \<lparr>tr_spanid = (0, 0), tr_parentid = (0, 0), tr_traceid = (0, 0), tr_flags = 0\<rparr>"

definition no_checksum :: Checksum where
  "no_checksum = \<lparr>csum_type = 0, csum_digest = []\<rparr>"

definition minimal_request :: CallRequest where
  "minimal_request =
     \<lparr>req_flags = 0, req_ttl = 1, req_tracing = zero_tracing, req_service = [115, 118, 99],
      req_headers = [([99, 110], [99, 97, 108, 108, 101, 114])], req_csum = no_checksum,
      req_args = [[]]\<rparr>"

definition error_response :: CallResponse where
  "error_response =
     \<lparr>res_flags = 0, res_code = 1, res_tracing = zero_tracing, res_headers = [],
      res_csum = no_checksum, res_args = [[101, 114, 114], [109, 115, 103]]\<rparr>"

section \<open>Notions used in the proofs about the lazy accessors\<close>

text \<open>
  The outcome of an accessor as a function of the buffer, the declared size and the cache
  alone. In these functions the result \<open>None\<close> is a thrown \<open>RangeError\<close>; \<open>same_frame f g\<close>
  says that \<open>g\<close> is \<open>f\<close> after some reads. \<open>header_pure\<close> is one turn of the loop of
  \<open>scanAndSkipHeaders\<close> (\<open>Some None\<close> is \<open>return false\<close>) and \<open>scan_pure\<close> the loop.
\<close>

definition same_frame :: "frame \<Rightarrow> frame \<Rightarrow> bool" where
  "same_frame f g = (buffer g = buffer f \<and> fsize g = fsize f \<and> cache g = cache f \<and> nreads f \<le> nreads g)"

definition header_pure :: "byte list \<Rightarrow> nat \<Rightarrow> nat \<Rightarrow> nat \<Rightarrow> nat \<Rightarrow> (nat \<times> nat \<times> nat) option option" where
  "header_pure buf sz off cn rd =
     (if sz < off + 1 then Some None
      else if length buf < off + 1 then None
      else if sz < unat (buf ! off) + (off + 1) then Some None
      else if unat (buf ! off) = 2 \<and> (cn = 0 \<or> rd = 0) \<and> length buf < off + 3 then None
      else if sz < off + 1 + unat (buf ! off) + 1 then Some None
      else if length buf < off + 1 + unat (buf ! off) + 1 then None
      else if sz < unat (buf ! (off + 1 + unat (buf ! off))) + (off + 1 + unat (buf ! off) + 1)
        then Some None
      else Some (Some
             (off + 1 + unat (buf ! off) + 1 + unat (buf ! (off + 1 + unat (buf ! off))),
              if cn = 0 \<and> unat (buf ! off) = 2 \<and> u16be_at buf (off + 1) = CN_VALUE
              then off + 1 + 2 else cn,
              if rd = 0 \<and> unat (buf ! off) = 2 \<and> u16be_at buf (off + 1) = RD_VALUE
              then off + 1 + 2 else rd)))"

fun scan_pure :: "byte list \<Rightarrow> nat \<Rightarrow> nat \<Rightarrow> nat \<Rightarrow> nat \<Rightarrow> nat \<Rightarrow> (nat \<times> nat \<times> nat) option option" where
  "scan_pure buf sz 0 off cn rd = Some (Some (off, cn, rd))"
| "scan_pure buf sz (Suc n) off cn rd =
     (case header_pure buf sz off cn rd of
        None \<Rightarrow> None
      | Some None \<Rightarrow> Some None
      | Some (Some (off', cn', rd')) \<Rightarrow> scan_pure buf sz n off' cn' rd')"

text \<open>
  \<open>findHeaderStartOffset\<close>: the offset it returns, the cache it leaves and the frame it
  leaves.
\<close>

definition hso_val :: "nat \<Rightarrow> byte list \<Rightarrow> nat \<Rightarrow> offset_cache \<Rightarrow> nat option" where
  "hso_val ov buf sz c =
     (if truthy (headerStartOffset c) then headerStartOffset c
      else if sz < serviceOffset ov + 1 then Some 0
      else if length buf < serviceOffset ov + 1 then None
      else Some (serviceOffset ov + (unat (buf ! serviceOffset ov) + 1)))"

definition hso_cache :: "nat \<Rightarrow> byte list \<Rightarrow> nat \<Rightarrow> offset_cache \<Rightarrow> offset_cache" where
  "hso_cache ov buf sz c =
     (if truthy (headerStartOffset c) \<or> sz < serviceOffset ov + 1 then c
      else c\<lparr>headerStartOffset := Some (serviceOffset ov + (unat (buf ! serviceOffset ov) + 1))\<rparr>)"

definition hso_frame :: "nat \<Rightarrow> frame \<Rightarrow> frame" where
  "hso_frame ov f =
     (if truthy (headerStartOffset (cache f)) \<or> fsize f < serviceOffset ov + 1 then f
      else f\<lparr>cache := hso_cache ov (buffer f) (fsize f) (cache f), nreads := nreads f + 1\<rparr>)"

text \<open>
  \<open>readUInt8String\<close> at an offset, and \<open>scanAndSkipHeaders\<close>: the offsets it finds
  (\<open>Some None\<close> when it returns false) and the cache it leaves.
\<close>

definition str8_val :: "byte list \<Rightarrow> nat \<Rightarrow> nat \<Rightarrow> jsstring option option" where
  "str8_val buf sz off =
     (if sz < off + 1 then Some None
      else if length buf < off + 1 then None
      else if sz < off + 1 + unat (buf ! off) then Some None
      else Some (Some (utf8_decode (take (unat (buf ! off)) (drop (off + 1) buf)))))"

definition scan_val :: "nat \<Rightarrow> byte list \<Rightarrow> nat \<Rightarrow> offset_cache \<Rightarrow> (nat \<times> nat \<times> nat) option option" where
  "scan_val ov buf sz c =
     (case hso_val ov buf sz c of
        None \<Rightarrow> None
      | Some h \<Rightarrow>
          if h = 0 then Some None
          else if sz < h + 1 then Some None
          else if length buf < h + 1 then None
          else scan_pure buf sz (unat (buf ! h)) (h + 1) 0 0)"

definition scan_cache :: "nat \<Rightarrow> byte list \<Rightarrow> nat \<Rightarrow> offset_cache \<Rightarrow> (nat \<times> nat \<times> nat) option \<Rightarrow> offset_cache" where
  "scan_cache ov buf sz c r =
     (case r of
        None \<Rightarrow> hso_cache ov buf sz c
      | Some (off, cn, rd) \<Rightarrow>
          (hso_cache ov buf sz c)\<lparr>cnValueOffset := Some cn, rdValueOffset := Some rd,
                                  csumStartOffset := Some off\<rparr>)"

text \<open>
  \<open>after f c g\<close>: \<open>g\<close> is \<open>f\<close> with the cache \<open>c\<close>, after some reads. \<open>links R P\<close>: the
  accessor \<open>R\<close> throws where \<open>P\<close> is \<open>None\<close>, and otherwise returns the value of \<open>P\<close> and
  leaves the cache of \<open>P\<close>.
\<close>

definition after :: "frame \<Rightarrow> offset_cache \<Rightarrow> frame \<Rightarrow> bool" where
  "after f c g = (buffer g = buffer f \<and> fsize g = fsize f \<and> cache g = c \<and> nreads f \<le> nreads g)"

definition links ::
  "(frame \<Rightarrow> ('a \<times> frame) option) \<Rightarrow>
   (byte list \<Rightarrow> nat \<Rightarrow> offset_cache \<Rightarrow> ('a \<times> offset_cache) option) \<Rightarrow> bool" where
  "links R P =
     (\<forall>f. case P (buffer f) (fsize f) (cache f) of
            None \<Rightarrow> R f = None
          | Some (v, c) \<Rightarrow> (\<exists>g. R f = Some (v, g) \<and> after f c g))"

text \<open>
  The value and the cache after \<open>readTTL\<close>, \<open>readTracingValue\<close> and \<open>readServiceStr\<close>.
\<close>

definition ttl_out :: "nat \<Rightarrow> byte list \<Rightarrow> nat \<Rightarrow> offset_cache \<Rightarrow> (nat \<times> offset_cache) option" where
  "ttl_out ov buf sz c =
     (case ttlValue c of
        Some v \<Rightarrow> Some (v, c)
      | None \<Rightarrow>
          if sz < ttlOffset ov + 4 then Some (0, c)
          else if length buf < ttlOffset ov + 4 then None
          else Some (u32be_at buf (ttlOffset ov), c\<lparr>ttlValue := Some (u32be_at buf (ttlOffset ov))\<rparr>))"

definition tracing_at :: "byte list \<Rightarrow> nat \<Rightarrow> TracingInfo" where
  "tracing_at buf off =
     \<lparr>spanid = (u32be_at buf off, u32be_at buf (off + 4)),
      parentid = (u32be_at buf (off + 8), u32be_at buf (off + 12)),
      traceid = (u32be_at buf (off + 16), u32be_at buf (off + 20)),
      traceflags = unat (buf ! (off + 24))\<rparr>"

definition tracing_out ::
  "nat \<Rightarrow> byte list \<Rightarrow> nat \<Rightarrow> offset_cache \<Rightarrow> (TracingInfo option \<times> offset_cache) option" where
  "tracing_out ov buf sz c =
     (case tracingValue c of
        Some v \<Rightarrow> Some (Some v, c)
      | None \<Rightarrow>
          if sz < tracingOffset ov + 25 then Some (None, c)
          else if length buf < tracingOffset ov + 25 then None
          else Some (Some (tracing_at buf (tracingOffset ov)),
                     c\<lparr>tracingValue := Some (tracing_at buf (tracingOffset ov))\<rparr>))"

definition service_out ::
  "nat \<Rightarrow> byte list \<Rightarrow> nat \<Rightarrow> offset_cache \<Rightarrow> (jsstring option \<times> offset_cache) option" where
  "service_out ov buf sz c =
     (case serviceStr c of
        Some s \<Rightarrow> Some (Some s, c)
      | None \<Rightarrow>
          (case hso_val ov buf sz c of
             None \<Rightarrow> None
           | Some h \<Rightarrow>
               if h = 0 \<or> sz < h then Some (None, hso_cache ov buf sz c)
               else Some (Some (utf8_decode (take (h - (serviceOffset ov + 1))
                                  (drop (serviceOffset ov + 1) buf))),
                          (hso_cache ov buf sz c)\<lparr>serviceStr :=
                             Some (utf8_decode (take (h - (serviceOffset ov + 1))
                                  (drop (serviceOffset ov + 1) buf)))\<rparr>)))"

text \<open>
  The header scan of an accessor that scans only when its offset is not cached yet.
\<close>

definition scan_if ::
  "bool \<Rightarrow> nat \<Rightarrow> byte list \<Rightarrow> nat \<Rightarrow> offset_cache \<Rightarrow> (bool \<times> offset_cache) option" where
  "scan_if need ov buf sz c =
     (if need then map_option (\<lambda>r. (r \<noteq> None, scan_cache ov buf sz c r)) (scan_val ov buf sz c)
      else Some (True, c))"

text \<open>
  The value and the cache after \<open>readCallerNameStr\<close> and \<open>readRoutingDelegateStr\<close>;
  \<open>string_at\<close> is the string at a cached value offset, \<open>null\<close> when it is empty.
\<close>

definition string_at :: "nat option \<Rightarrow> byte list \<Rightarrow> nat \<Rightarrow> jsstring option option" where
  "string_at off buf sz =
     (case off of
        None \<Rightarrow> Some None
      | Some 0 \<Rightarrow> Some None
      | Some (Suc k) \<Rightarrow>
          map_option (\<lambda>s. if falsy_str s then None else s) (str8_val buf sz (Suc k)))"

definition cn_out ::
  "nat \<Rightarrow> byte list \<Rightarrow> nat \<Rightarrow> offset_cache \<Rightarrow> (jsstring option \<times> offset_cache) option" where
  "cn_out ov buf sz c =
     (case callerNameStr c of
        Some s \<Rightarrow> Some (Some s, c)
      | None \<Rightarrow>
          (case scan_if (cnValueOffset c = None) ov buf sz c of
             None \<Rightarrow> None
           | Some (success, c1) \<Rightarrow>
               if \<not> success then Some (None, c1)
               else
                 (case string_at (cnValueOffset c1) buf sz of
                    None \<Rightarrow> None
                  | Some None \<Rightarrow> Some (None, c1)
                  | Some (Some s) \<Rightarrow> Some (Some s, c1\<lparr>callerNameStr := Some s\<rparr>))))"

definition rd_out ::
  "nat \<Rightarrow> byte list \<Rightarrow> nat \<Rightarrow> offset_cache \<Rightarrow> (jsstring option \<times> offset_cache) option" where
  "rd_out ov buf sz c =
     (case routingDelegateStr c of
        Some s \<Rightarrow> Some (Some s, c)
      | None \<Rightarrow>
          (case scan_if (rdValueOffset c = None) ov buf sz c of
             None \<Rightarrow> None
           | Some (success, c1) \<Rightarrow>
               if \<not> success then Some (None, c1)
               else
                 (case string_at (rdValueOffset c1) buf sz of
                    None \<Rightarrow> None
                  | Some None \<Rightarrow> Some (None, c1)
                  | Some (Some s) \<Rightarrow> Some (Some s, c1\<lparr>routingDelegateStr := Some s\<rparr>))))"

text \<open>
  The value and the cache after \<open>readArg1Str\<close>. \<open>arg1_at\<close> is what follows the header
  scan, from the offset of the checksum: the string, or the message stored in \<open>lastError\<close>;
  \<open>arg1_tail\<close> is that part of the accessor itself.
\<close>

definition arg1_at :: "byte list \<Rightarrow> nat \<Rightarrow> nat \<Rightarrow> (string + jsstring) option" where
  "arg1_at buf sz off =
     (if sz < off + 1 then Some (Inl ''Could not read csum type'')
      else if length buf < off + 1 then None
      else
        (case (if unat (buf ! off) \<noteq> Checksum_Types_None
               then map_option (\<lambda>w. off + 1 + w) (Checksum_offsetWidth (unat (buf ! off)))
               else Some (off + 1)) of
           None \<Rightarrow> None
         | Some off2 \<Rightarrow>
             if sz < off2 + 2 then Some (Inl ''Could not read arg1 size'')
             else if length buf < off2 + 2 then None
             else if sz < off2 + 2 + u16be_at buf off2
               then Some (Inl ''Could not read arg1 itself'')
             else Some (Inr (utf8_decode (take (u16be_at buf off2) (drop (off2 + 2) buf))))))"

definition arg1_out ::
  "nat \<Rightarrow> byte list \<Rightarrow> nat \<Rightarrow> offset_cache \<Rightarrow> (jsstring option \<times> offset_cache) option" where
  "arg1_out ov buf sz c =
     (case arg1Str c of
        Some s \<Rightarrow> Some (Some s, c)
      | None \<Rightarrow>
          (case scan_if (\<not> truthy (csumStartOffset c)) ov buf sz c of
             None \<Rightarrow> None
           | Some (success, c1) \<Rightarrow>
               if \<not> success
               then Some (None, c1\<lparr>lastError := Some ''Could not scan & skip headers''\<rparr>)
               else
                 (case arg1_at buf sz (js_num (csumStartOffset c1)) of
                    None \<Rightarrow> None
                  | Some (Inl msg) \<Rightarrow> Some (None, c1\<lparr>lastError := Some msg\<rparr>)
                  | Some (Inr s) \<Rightarrow> Some (Some s, c1\<lparr>arg1Str := Some s\<rparr>))))"

definition arg1_tail :: "frame \<Rightarrow> (jsstring option \<times> frame) option" where
  "arg1_tail f1 =
     (let offset = js_num (csumStartOffset (cache f1)) in
      if fsize f1 < offset + 1
      then Some (None, set_lastError ''Could not read csum type'' f1)
      else do {
        (csumType, f2) \<leftarrow> readUInt8 f1 offset;
        let offset1 = offset + 1;
        offset2 \<leftarrow>
          (if csumType \<noteq> Checksum_Types_None
           then map_option (\<lambda>w. offset1 + w) (Checksum_offsetWidth csumType)
           else Some offset1);
        if fsize f2 < offset2 + 2
        then Some (None, set_lastError ''Could not read arg1 size'' f2)
        else do {
          (arg1Length, f3) \<leftarrow> readUInt16BE f2 offset2;
          let offset3 = offset2 + 2;
          let end' = offset3 + arg1Length;
          if fsize f3 < end'
          then Some (None, set_lastError ''Could not read arg1 itself'' f3)
          else
            (let (str, f4) = fastBufferToString f3 offset3 end'
             in Some (Some str, f4\<lparr>cache := (cache f4)\<lparr>arg1Str := Some str\<rparr>\<rparr>))
        }
      })"

text \<open>
  A frame as it is received: the size is the length of the buffer, nothing is cached and
  nothing has been read. \<open>call_twice\<close> calls an accessor on the frame that its first call
  left.
\<close>

definition fresh_frame :: "byte list \<Rightarrow> frame" where
  "fresh_frame bs = \<lparr>buffer = bs, fsize = length bs, cache = empty_cache, nreads = 0\<rparr>"

definition call_twice :: "(frame \<Rightarrow> ('a \<times> frame) option) \<Rightarrow> frame \<Rightarrow> ('a \<times> frame) option" where
  "call_twice R f = (case R f of None \<Rightarrow> None | Some (v, g) \<Rightarrow> R g)"

text \<open>
  The frame of scenario S3 of the specification, with no frame header before it: flags 0,
  ttl 1, an empty tracing record, the service \<open>svc\<close>, the headers \<open>cn = first\<close> and
  \<open>cn = second\<close>, no checksum and an empty first argument.
\<close>

definition duplicate_cn :: "byte list" where
  "duplicate_cn =
     [0, 0, 0, 0, 1,
      0, 0, 0, 0, 0, 0, 0, 0, 0, 0, 0, 0, 0, 0, 0, 0, 0, 0, 0, 0, 0, 0, 0, 0, 0,
      3, 115, 118, 99,
      2, 2, 99, 110, 5, 102, 105, 114, 115, 116, 2, 99, 110, 6, 115, 101, 99, 111, 110, 100,
      0, 0, 0]"

text \<open>
  The lazy accessors by name, and a sequence of calls on a frame, each on the frame that
  the call before left; the values returned are dropped.
\<close>

datatype accessor =
  ReadTTL | ReadTracingValue | ReadServiceStr | ReadCallerNameStr | ReadRoutingDelegateStr
  | ReadArg1Str

definition call_accessor :: "nat \<Rightarrow> accessor \<Rightarrow> frame \<Rightarrow> frame option" where
  "call_accessor ov a f =
     (case a of
        ReadTTL \<Rightarrow> map_option snd (readTTL ov f)
      | ReadTracingValue \<Rightarrow> map_option snd (readTracingValue ov f)
      | ReadServiceStr \<Rightarrow> map_option snd (readServiceStr ov f)
      | ReadCallerNameStr \<Rightarrow> map_option snd (readCallerNameStr ov f)
      | ReadRoutingDelegateStr \<Rightarrow> map_option snd (readRoutingDelegateStr ov f)
      | ReadArg1Str \<Rightarrow> map_option snd (readArg1Str ov f))"

fun call_accessors :: "nat \<Rightarrow> accessor list \<Rightarrow> frame \<Rightarrow> frame option" where
  "call_accessors ov [] f = Some f"
| "call_accessors ov (a # as) f =
     (case call_accessor ov a f of None \<Rightarrow> None | Some g \<Rightarrow> call_accessors ov as g)"

text \<open>
  The offsets of a cache, against a buffer and a size: a cached \<open>headerStartOffset\<close> is
  the offset after the service string as its length byte declares it, a cached
  \<open>csumStartOffset\<close> is at most the size, and a cached \<open>cnValueOffset\<close> or
  \<open>rdValueOffset\<close> is 0 or below the size.
\<close>

definition offsets_in_frame :: "nat \<Rightarrow> byte list \<Rightarrow> nat \<Rightarrow> offset_cache \<Rightarrow> bool" where
  "offsets_in_frame ov buf sz c =
     ((case headerStartOffset c of
         None \<Rightarrow> True
       | Some h \<Rightarrow> serviceOffset ov < sz \<and> h = serviceOffset ov + unat (buf ! serviceOffset ov) + 1)
      \<and> (case csumStartOffset c of None \<Rightarrow> True | Some off \<Rightarrow> 0 < off \<and> off \<le> sz)
      \<and> (case cnValueOffset c of None \<Rightarrow> True | Some off \<Rightarrow> off = 0 \<or> off < sz)
      \<and> (case rdValueOffset c of None \<Rightarrow> True | Some off \<Rightarrow> off = 0 \<or> off < sz))"

section \<open>Properties of the permissions cache\<close>

text \<open>
  What one call of \<open>increment\<close> makes of the cache, in each of its two matching cases.
\<close>

lemma map_of_lru_use:
  "map_of (lru_use key v es) k = (if k = key then Some v else map_of es k)"
  by (induction es) (auto simp: lru_use_def)

lemma map_of_take:
  "map_of (take n es) k = map_of es k \<or> map_of (take n es) k = None"
proof (induction es arbitrary: n)
  case Nil
  show ?case by simp
next
  case (Cons e es)
  show ?case
  proof (cases n)
    case 0
    then show ?thesis by simp
  next
    case (Suc m)
    then show ?thesis using Cons [of m] by (cases e) auto
  qed
qed

lemma map_of_lru_trim:
  "map_of (lru_trim m es) k = map_of es k \<or> map_of (lru_trim m es) k = None"
  using map_of_take [of _ es k] by (auto simp: lru_trim_def split: option.splits)

lemma lru_trim_head:
  "map_of (lru_trim m ((key, v) # es)) key = Some v"
  by (cases m) (auto simp: lru_trim_def take_Cons' )

lemma lru_trim_room:
  "(case m of None \<Rightarrow> True | Some n \<Rightarrow> n = 0 \<or> length es \<le> n) \<Longrightarrow> lru_trim m es = es"
  by (auto simp: lru_trim_def split: option.splits)

lemma increment_missing:
  assumes "stat_name st = ''inbound.calls.recvd''" "stat_type st = ''counter''"
    and "map_of (lru_entries self) (createCallsKey (tag_calling_service (stat_tags st)) (tag_service (stat_tags st))) = None"
  shows "increment self st =
     self\<lparr>lru_entries := lru_use (createCallsKey (tag_calling_service (stat_tags st)) (tag_service (stat_tags st))) (Num 99)
             (lru_trim (lru_max self) ((createCallsKey (tag_calling_service (stat_tags st)) (tag_service (stat_tags st)), Num 100) # lru_entries self)),
          bucketIntervals := bucketIntervals self @ [(createCallsKey (tag_calling_service (stat_tags st)) (tag_service (stat_tags st)), 1000)]\<rparr>"
  using assms
  by (simp add: increment_def lru_get_def initializeTokenBucket_def resetTokens_def lru_set_def
      Let_def lru_trim_head map_of_lru_use js_minus1_def double_minus1_def NUM_TOKENS_def
      BUCKET_RESET_DURATION_def lru_use_def)

lemma increment_present:
  assumes "stat_name st = ''inbound.calls.recvd''" "stat_type st = ''counter''"
    and "map_of (lru_entries self) (createCallsKey (tag_calling_service (stat_tags st)) (tag_service (stat_tags st))) = Some v"
  shows "increment self st =
     self\<lparr>lru_entries := lru_use (createCallsKey (tag_calling_service (stat_tags st)) (tag_service (stat_tags st))) (js_minus1 (Some v))
             (lru_entries self)\<rparr>"
  using assms
  by (simp add: increment_def lru_get_def lru_set_def Let_def map_of_lru_use lru_use_def)

lemma createCallsKey_text:
  "createCallsKey caller callee =
     (case caller of None \<Rightarrow> ''undefined'' | Some a \<Rightarrow> a) @ ''_'' @
     (case callee of None \<Rightarrow> ''undefined'' | Some b \<Rightarrow> b)"
  by (simp add: createCallsKey_def js_str_def)

text \<open>
  An inbound call for a new pair on a full cache evicts the least recently used entry.
\<close>

lemma eviction_example:
  "map_of (lru_entries (increment full_cache (inbound_call ''x'' ''y''))) ''c_d'' = None"
  by (simp add: increment_def inbound_call_def full_cache_def createCallsKey_def js_str_def
      lru_get_def lru_set_def lru_use_def lru_trim_def js_minus1_def double_minus1_def Let_def
      initializeTokenBucket_def resetTokens_def NUM_TOKENS_def)


text \<open>
  C10, at the limit of the doubles. An entry that holds \<open>- (2 ^ 53)\<close> is not lowered by an
  inbound call: \<open>tokens - 1\<close> rounds back to \<open>- (2 ^ 53)\<close>.
\<close>

theorem increment_stalls_at_double_limit:
  "map_of (lru_entries (increment stalled_cache (inbound_call ''a'' ''b''))) ''a_b''
     = Some (Num (- 9007199254740992))
   \<and> map_of (lru_entries (increment stalled_cache (inbound_call ''a'' ''b''))) ''a_b''
     \<noteq> Some (Num (- 9007199254740992 - 1))"
  by (simp add: increment_def inbound_call_def stalled_cache_def createCallsKey_def js_str_def
      lru_get_def lru_set_def lru_use_def js_minus1_def double_minus1_def Let_def)

text \<open>
  C10. A stat event changes the cache only when its name is \<open>inbound.calls.recvd\<close> and
  its type is \<open>counter\<close>; for every other event the cache, timers included, is the one
  before. A matching event works on the entry at the key \<open>caller + '_' + callee\<close>, the
  caller being the tag \<open>calling-service\<close> and the callee the tag \<open>service\<close> (a missing tag
  reads \<open>undefined\<close>). A missing entry is set to 100 tokens, its reset timer of period 1000
  is registered, and it ends at 99. An entry holding an integer \<open>n\<close> with
  \<open>- (2 ^ 53) < n \<le> 2 ^ 53\<close> ends at \<open>n - 1\<close>, and no timer is registered. Every other
  key keeps its entry or loses it by eviction, and keeps it when the key of the event was
  present or the cache has room; the bound of the cache stays.
\<close>

theorem increment_observes_inbound_calls:
  fixes self :: permissions_cache and st :: stat
  defines "key \<equiv> (case tag_calling_service (stat_tags st) of None \<Rightarrow> ''undefined'' | Some a \<Rightarrow> a)
                   @ ''_'' @
                   (case tag_service (stat_tags st) of None \<Rightarrow> ''undefined'' | Some b \<Rightarrow> b)"
  shows "(stat_name st = ''inbound.calls.recvd'' \<and> stat_type st = ''counter'' \<longrightarrow>
            (map_of (lru_entries self) key = None \<longrightarrow>
               map_of (lru_entries (increment self st)) key = Some (Num 99)
               \<and> bucketIntervals (increment self st) = bucketIntervals self @ [(key, 1000)])
          \<and> (\<forall>n. map_of (lru_entries self) key = Some (Num n) \<longrightarrow>
               (- (2 ^ 53) < n \<and> n \<le> 2 ^ 53 \<longrightarrow>
                  map_of (lru_entries (increment self st)) key = Some (Num (n - 1)))
               \<and> bucketIntervals (increment self st) = bucketIntervals self)
          \<and> (\<forall>k. k \<noteq> key \<longrightarrow>
               map_of (lru_entries (increment self st)) k = map_of (lru_entries self) k
               \<or> map_of (lru_entries (increment self st)) k = None)
          \<and> (\<forall>k. k \<noteq> key \<longrightarrow>
               (map_of (lru_entries self) key \<noteq> None \<or> lru_max self = None
                \<or> (\<exists>m. lru_max self = Some m \<and> (m = 0 \<or> length (lru_entries self) < m))) \<longrightarrow>
               map_of (lru_entries (increment self st)) k = map_of (lru_entries self) k)
          \<and> lru_max (increment self st) = lru_max self)
       \<and> (\<not> (stat_name st = ''inbound.calls.recvd'' \<and> stat_type st = ''counter'') \<longrightarrow>
            increment self st = self)"
proof (intro conjI impI allI)
  assume "\<not> (stat_name st = ''inbound.calls.recvd'' \<and> stat_type st = ''counter'')"
  then show "increment self st = self" by (auto simp: increment_def)
next
  assume m: "stat_name st = ''inbound.calls.recvd'' \<and> stat_type st = ''counter''"
    and e: "map_of (lru_entries self) key = None"
  let ?k = "createCallsKey (tag_calling_service (stat_tags st)) (tag_service (stat_tags st))"
  have k: "?k = key" by (simp add: createCallsKey_text key_def)
  note i = increment_missing [of st self, unfolded k, OF conjunct1 [OF m] conjunct2 [OF m] e]
  show "map_of (lru_entries (increment self st)) key = Some (Num 99)"
    by (simp add: i map_of_lru_use)
  show "bucketIntervals (increment self st) = bucketIntervals self @ [(key, 1000)]"
    by (simp add: i)
next
  fix n
  assume m: "stat_name st = ''inbound.calls.recvd'' \<and> stat_type st = ''counter''"
    and e: "map_of (lru_entries self) key = Some (Num n)"
  let ?k = "createCallsKey (tag_calling_service (stat_tags st)) (tag_service (stat_tags st))"
  have k: "?k = key" by (simp add: createCallsKey_text key_def)
  note i = increment_present [of st self, unfolded k, OF conjunct1 [OF m] conjunct2 [OF m] e]
  show "bucketIntervals (increment self st) = bucketIntervals self" by (simp add: i)
  assume "- (2 ^ 53) < n \<and> n \<le> 2 ^ 53"
  then show "map_of (lru_entries (increment self st)) key = Some (Num (n - 1))"
    by (simp add: i map_of_lru_use js_minus1_def double_minus1_def)
next
  fix k
  assume m: "stat_name st = ''inbound.calls.recvd'' \<and> stat_type st = ''counter''"
    and ne: "k \<noteq> key"
  let ?k = "createCallsKey (tag_calling_service (stat_tags st)) (tag_service (stat_tags st))"
  have k: "?k = key" by (simp add: createCallsKey_text key_def)
  show "map_of (lru_entries (increment self st)) k = map_of (lru_entries self) k
        \<or> map_of (lru_entries (increment self st)) k = None"
  proof (cases "map_of (lru_entries self) key")
    case None
    note i = increment_missing [of st self, unfolded k, OF conjunct1 [OF m] conjunct2 [OF m] None]
    show ?thesis
      using map_of_lru_trim [of "lru_max self" "(key, Num 100) # lru_entries self" k] ne
      by (simp add: i map_of_lru_use)
  next
    case (Some v)
    note i = increment_present [of st self, unfolded k, OF conjunct1 [OF m] conjunct2 [OF m] Some]
    show ?thesis using ne by (simp add: i map_of_lru_use)
  qed
  assume r: "map_of (lru_entries self) key \<noteq> None \<or> lru_max self = None
        \<or> (\<exists>m. lru_max self = Some m \<and> (m = 0 \<or> length (lru_entries self) < m))"
  show "map_of (lru_entries (increment self st)) k = map_of (lru_entries self) k"
  proof (cases "map_of (lru_entries self) key")
    case None
    note i = increment_missing [of st self, unfolded k, OF conjunct1 [OF m] conjunct2 [OF m] None]
    have "lru_trim (lru_max self) ((key, Num 100) # lru_entries self) = (key, Num 100) # lru_entries self"
      using r None by (intro lru_trim_room) (auto split: option.splits)
    then show ?thesis using ne by (simp add: i map_of_lru_use)
  next
    case (Some v)
    note i = increment_present [of st self, unfolded k, OF conjunct1 [OF m] conjunct2 [OF m] Some]
    show ?thesis using ne by (simp add: i map_of_lru_use)
  qed
next
  assume m: "stat_name st = ''inbound.calls.recvd'' \<and> stat_type st = ''counter''"
  let ?k = "createCallsKey (tag_calling_service (stat_tags st)) (tag_service (stat_tags st))"
  show "lru_max (increment self st) = lru_max self"
  proof (cases "map_of (lru_entries self) ?k")
    case None
    show ?thesis
      by (simp add: increment_missing [OF conjunct1 [OF m] conjunct2 [OF m] None])
  next
    case (Some v)
    show ?thesis
      by (simp add: increment_present [OF conjunct1 [OF m] conjunct2 [OF m] Some])
  qed
qed

theorem increment_observes_inbound_calls_witness:
  "map_of (lru_entries (increment full_cache (inbound_call ''x'' ''y''))) ''x_y'' = Some (Num 99)
   \<and> bucketIntervals (increment full_cache (inbound_call ''x'' ''y''))
       = [(''c_d'', 1000), (''a_b'', 1000), (''x_y'', 1000)]
   \<and> map_of (lru_entries (increment full_cache (inbound_call ''c'' ''d''))) ''c_d'' = Some (Num 2)
   \<and> map_of (lru_entries (increment full_cache (inbound_call ''c'' ''d''))) ''a_b'' = Some (Num 7)
   \<and> increment full_cache outbound_call = full_cache"
  using
    increment_observes_inbound_calls [of "inbound_call ''x'' ''y''" full_cache]
    increment_observes_inbound_calls [of "inbound_call ''c'' ''d''" full_cache]
    increment_observes_inbound_calls [of outbound_call full_cache]
  by (simp add: inbound_call_def outbound_call_def full_cache_def)


section \<open>Properties of the structured reader and writer\<close>

lemma overwrite_length: "off + length bs \<le> length buf \<Longrightarrow> length (overwrite buf off bs) = length buf"
  by (simp add: overwrite_def)

lemma overwrite_nil: "overwrite buf off [] = buf"
  by (simp add: overwrite_def)

lemma overwrite_overwrite:
  assumes "off + length a + length b \<le> length buf"
  shows "overwrite (overwrite buf off a) (off + length a) b = overwrite buf off (a @ b)"
proof -
  have l: "length (take off buf) = off" using assms by simp
  have "take (off + length a) (take off buf @ a @ drop (off + length a) buf) = take off buf @ a"
    using l by simp
  moreover have "drop (off + length a + length b) (take off buf @ a @ drop (off + length a) buf)
      = drop (off + length a + length b) buf"
    using l by (simp add: add.commute)
  ultimately show ?thesis
    by (simp add: overwrite_def add.assoc)
qed

lemma overwrite_nth_before: "i < off \<Longrightarrow> off \<le> length buf \<Longrightarrow> overwrite buf off bs ! i = buf ! i"
  by (simp add: overwrite_def nth_append)

lemma overwrite_drop:
  "off \<le> length buf \<Longrightarrow> drop off (overwrite buf off bs) = bs @ drop (off + length bs) buf"
  by (simp add: overwrite_def)

lemma list_update_overwrite: "off < length buf \<Longrightarrow> buf[off := v] = overwrite buf off [v]"
  by (simp add: overwrite_def upd_conv_take_nth_drop)

lemma overwrite_update_head:
  assumes "Suc off + length bs \<le> length buf"
  shows "(overwrite buf (Suc off) bs)[off := v] = overwrite buf off (v # bs)"
proof -
  have "off < length buf" using assms by simp
  then have t: "take (Suc off) buf = take off buf @ [buf ! off]"
    by (simp add: take_Suc_conv_app_nth)
  have "(take off buf @ [buf ! off] @ bs @ drop (Suc off + length bs) buf)[off := v]
      = take off buf @ [v] @ bs @ drop (Suc off + length bs) buf"
    using \<open>off < length buf\<close> by (simp add: list_update_append)
  then show ?thesis by (simp add: overwrite_def t)
qed

lemma UInt8_writeInto_overwrite:
  "UInt8_writeInto v buf off = Inr (buf', off') \<longleftrightarrow>
     off + 1 \<le> length buf \<and> buf' = overwrite buf off [v] \<and> off' = off + 1"
  by (auto simp: UInt8_writeInto_def list_update_overwrite)

lemma bytes_writeInto_overwrite:
  "bytes_writeInto bs buf off = Inr (buf', off') \<longleftrightarrow>
     off + length bs \<le> length buf \<and> buf' = overwrite buf off bs \<and> off' = off + length bs"
  by (auto simp: bytes_writeInto_def overwrite_def)

lemma UInt8_writeInto_Inl:
  "UInt8_writeInto v buf off = Inl e \<longleftrightarrow> \<not> off + 1 \<le> length buf \<and> e = BufferTooShort"
  by (auto simp: UInt8_writeInto_def)

lemma bytes_writeInto_Inl:
  "bytes_writeInto bs buf off = Inl e \<longleftrightarrow> \<not> off + length bs \<le> length buf \<and> e = BufferTooShort"
  by (auto simp: bytes_writeInto_def)

lemma writes_UInt8: "writes (UInt8_writeInto v) [v]"
  by (simp add: writes_def UInt8_writeInto_overwrite)

lemma writes_bytes: "writes (bytes_writeInto bs) bs"
  by (simp add: writes_def bytes_writeInto_overwrite)

lemma writes_seq:
  assumes "writes W1 a" "writes W2 b"
  shows "writes (\<lambda>buf off. case W1 buf off of Inl e \<Rightarrow> Inl e | Inr (buf1, off1) \<Rightarrow> W2 buf1 off1) (a @ b)"
  unfolding writes_def
proof (intro allI impI)
  fix buf :: "byte list" and off :: nat
  assume len: "off + length (a @ b) \<le> length buf"
  have w1: "W1 buf off = Inr (overwrite buf off a, off + length a)"
    using assms(1) len by (simp add: writes_def)
  have "length (overwrite buf off a) = length buf" using len by (simp add: overwrite_length)
  then have w2: "W2 (overwrite buf off a) (off + length a)
      = Inr (overwrite (overwrite buf off a) (off + length a) b, off + length a + length b)"
    using assms(2) len by (simp add: writes_def)
  have "overwrite (overwrite buf off a) (off + length a) b = overwrite buf off (a @ b)"
    using len by (intro overwrite_overwrite) simp
  then show "(case W1 buf off of Inl e \<Rightarrow> Inl e | Inr (buf1, off1) \<Rightarrow> W2 buf1 off1)
      = Inr (overwrite buf off (a @ b), off + length (a @ b))"
    using w1 w2 by (simp add: add.assoc)
qed

lemma writes_eq:
  "writes W' bs' \<Longrightarrow> bs = bs' \<Longrightarrow> (\<And>buf off. W buf off = W' buf off) \<Longrightarrow> writes W bs"
  by (simp add: writes_def)

lemma writes_str1:
  assumes "wf_str1 s"
  shows "writes (str1_writeInto s) (str1_bytes s)"
proof -
  have "writes (\<lambda>buf off. case UInt8_writeInto (word_of_nat (length (utf8_encode s))) buf off of
                  Inl e \<Rightarrow> Inl e | Inr (buf1, off1) \<Rightarrow> bytes_writeInto (utf8_encode s) buf1 off1)
          ([word_of_nat (length (utf8_encode s))] @ utf8_encode s)"
    by (rule writes_seq [OF writes_UInt8 writes_bytes])
  then show ?thesis
    by (rule writes_eq) (use assms in \<open>simp_all add: str1_writeInto_def wf_str1_def str1_bytes_def Let_def\<close>)
qed

lemma hdr_bytes_simps:
  "hdr_bytes [] = []"
  "hdr_bytes ((k, v) # hs) = str1_bytes k @ str1_bytes v @ hdr_bytes hs"
  by (simp_all add: hdr_bytes_def)

lemma writes_nothing: "writes (\<lambda>buf off. Inr (buf, off)) []"
  by (simp add: writes_def overwrite_nil)

lemma writes_header1_entries:
  "list_all (\<lambda>(k, v). wf_str1 k \<and> wf_str1 v) hs \<Longrightarrow> writes (header1_writeEntries hs) (hdr_bytes hs)"
proof (induction hs)
  case Nil
  show ?case by (rule writes_eq [OF writes_nothing]) (simp_all add: hdr_bytes_simps)
next
  case (Cons kv hs)
  obtain k v where kv: "kv = (k, v)" by (cases kv)
  from Cons.prems have wf: "wf_str1 k" "wf_str1 v" "list_all (\<lambda>(k, v). wf_str1 k \<and> wf_str1 v) hs"
    by (simp_all add: kv)
  show ?case
    unfolding kv
    by (rule writes_eq [OF writes_seq [OF writes_str1 [OF wf(1)]
          writes_seq [OF writes_str1 [OF wf(2)] Cons.IH [OF wf(3)]]]])
       (simp_all add: hdr_bytes_simps split: sum.splits)
qed

lemma writes_header1:
  assumes "wf_headers hs"
  shows "writes (header1_writeInto hs) (header1_bytes hs)"
proof -
  from assms have wf: "length hs \<le> 255" "list_all (\<lambda>(k, v). wf_str1 k \<and> wf_str1 v) hs"
    by (simp_all add: wf_headers_def)
  show ?thesis
    by (rule writes_eq [OF writes_seq [OF writes_UInt8 writes_header1_entries [OF wf(2)]]])
       (use wf in \<open>simp_all add: header1_writeInto_def header1_bytes_def\<close>)
qed

lemma writes_Checksum:
  assumes "wf_csum c"
  shows "writes (Checksum_writeInto c) (Checksum_bytes c)"
  by (rule writes_eq [OF writes_seq [OF writes_UInt8 writes_bytes]])
     (use assms in \<open>simp_all add: Checksum_writeInto_def Checksum_bytes_def wf_csum_def\<close>)

lemma writes_arg2:
  assumes "length a \<le> 65535"
  shows "writes (arg2_writeInto a) (arg2_bytes a)"
  by (rule writes_eq [OF writes_seq [OF writes_bytes writes_bytes]])
     (use assms in \<open>simp_all add: arg2_writeInto_def UInt16BE_writeInto_def arg2_bytes_def\<close>)

lemma writes_args: "wf_args as \<Longrightarrow> writes (args_writeAll as) (args_bytes as)"
proof (induction as)
  case Nil
  show ?case by (rule writes_eq [OF writes_nothing]) (simp_all add: args_bytes_def)
next
  case (Cons a as)
  from Cons.prems have wf: "length a \<le> 65535" "wf_args as" by (simp_all add: wf_args_def)
  show ?case
    by (rule writes_eq [OF writes_seq [OF writes_arg2 [OF wf(1)] Cons.IH [OF wf(2)]]])
       (simp_all add: args_bytes_def)
qed

lemma writes_Tracing: "writes (Tracing_writeInto t) (Tracing_bytes t)"
  by (rule writes_eq [OF writes_bytes]) (simp_all add: Tracing_writeInto_def)

lemma writes_UInt32BE: "writes (UInt32BE_writeInto w) (u32_bytes w)"
  by (rule writes_eq [OF writes_bytes]) (simp_all add: UInt32BE_writeInto_def)

lemma drop_view:
  assumes "drop off buf = a @ r" "off \<le> length buf"
  shows "drop (off + length a) buf = r"
    and "off + length a \<le> length buf"
    and "take (length a) (drop off buf) = a"
    and "\<And>i. i < length a \<Longrightarrow> buf ! (off + i) = a ! i"
proof -
  have "drop (off + length a) buf = drop (length a) (drop off buf)"
    by (simp add: add.commute)
  then show "drop (off + length a) buf = r" using assms by simp
  have "length (drop off buf) = length a + length r" using assms by simp
  then show le: "off + length a \<le> length buf" using assms(2) by simp
  show "take (length a) (drop off buf) = a" using assms by simp
  fix i assume i: "i < length a"
  have "buf ! (off + i) = drop off buf ! i" using le i by simp
  then show "buf ! (off + i) = a ! i" using assms i by (simp add: nth_append)
qed

lemma reads_bind:
  assumes "reads_as R1 a x" "reads_as (K x) b y"
  shows "reads_as (\<lambda>buf off. case R1 buf off of Inl e \<Rightarrow> Inl e | Inr (x', off1) \<Rightarrow> K x' buf off1) (a @ b) y"
  unfolding reads_as_def
proof (intro allI impI)
  fix buf :: "byte list" and off :: nat and rest :: "byte list"
  assume le: "off \<le> length buf" and d: "drop off buf = (a @ b) @ rest"
  then have d1: "drop off buf = a @ (b @ rest)" by simp
  have r1: "R1 buf off = Inr (x, off + length a)"
    using assms(1) le d1 unfolding reads_as_def by blast
  have r2: "K x buf (off + length a) = Inr (y, off + length a + length b)"
    using assms(2) drop_view(1,2) [OF d1 le] unfolding reads_as_def by blast
  show "(case R1 buf off of Inl e \<Rightarrow> Inl e | Inr (x', off1) \<Rightarrow> K x' buf off1)
      = Inr (y, off + length (a @ b))"
    using r1 r2 by (simp add: add.assoc)
qed

lemma reads_map:
  assumes "reads_as R bs v"
  shows "reads_as (\<lambda>buf off. case R buf off of Inl e \<Rightarrow> Inl e | Inr (v', off1) \<Rightarrow> Inr (g v', off1)) bs (g v)"
  using assms unfolding reads_as_def by fastforce

lemma reads_eq:
  "reads_as R' bs' v' \<Longrightarrow> bs = bs' \<Longrightarrow> v = v' \<Longrightarrow> (\<And>buf off. R buf off = R' buf off) \<Longrightarrow>
   reads_as R bs v"
  by (simp add: reads_as_def)

lemma reads_UInt8: "reads_as UInt8_readFrom [v] v"
  unfolding reads_as_def
proof (intro allI impI)
  fix buf :: "byte list" and off :: nat and rest :: "byte list"
  assume le: "off \<le> length buf" and d: "drop off buf = [v] @ rest"
  from drop_view(2) [OF d le] drop_view(4) [OF d le, of 0]
  show "UInt8_readFrom buf off = Inr (v, off + length [v])"
    by (simp add: UInt8_readFrom_def)
qed

lemma reads_bytes: "length bs = n \<Longrightarrow> reads_as (bytes_readFrom n) bs bs"
  unfolding reads_as_def
proof (intro allI impI)
  fix buf :: "byte list" and off :: nat and rest :: "byte list"
  assume n: "length bs = n" and le: "off \<le> length buf" and d: "drop off buf = bs @ rest"
  from drop_view(2,3) [OF d le] n
  show "bytes_readFrom n buf off = Inr (bs, off + length bs)"
    by (simp add: bytes_readFrom_def)
qed

lemma unat_byte_of_nat: "n < 256 \<Longrightarrow> unat (word_of_nat n :: byte) = n"
  by (simp add: unat_of_nat)

lemma reads_UInt16BE:
  assumes "n \<le> 65535"
  shows "reads_as UInt16BE_readFrom (u16_bytes n) n"
  unfolding reads_as_def
proof (intro allI impI)
  fix buf :: "byte list" and off :: nat and rest :: "byte list"
  assume le: "off \<le> length buf" and d: "drop off buf = u16_bytes n @ rest"
  have l: "length (u16_bytes n) = 2" by (simp add: u16_bytes_def)
  have b0: "buf ! off = word_of_nat (n div 256)"
    using drop_view(4) [OF d le, of 0] by (simp add: u16_bytes_def)
  have b1: "buf ! Suc off = word_of_nat (n mod 256)"
    using drop_view(4) [OF d le, of 1] by (simp add: u16_bytes_def)
  have "n div 256 < 256" using assms by simp
  then have "u16be_at buf off = n"
    by (simp add: u16be_at_def b0 b1 unat_byte_of_nat)
  then show "UInt16BE_readFrom buf off = Inr (n, off + length (u16_bytes n))"
    using drop_view(2) [OF d le] l by (simp add: UInt16BE_readFrom_def)
qed

lemma u32be_at_bytes:
  assumes le: "off \<le> length buf" and d: "drop off buf = u32_bytes w @ rest"
  shows "u32be_at buf off = unat w"
proof -
  let ?n = "unat w"
  have n: "?n < 4294967296" using unsigned_less [of w, where 'a = nat] by simp
  have b0: "buf ! off = word_of_nat (?n div 16777216)"
    using drop_view(4) [OF d le, of 0] by (simp add: u32_bytes_def Let_def)
  have b1: "buf ! Suc off = word_of_nat (?n div 65536 mod 256)"
    using drop_view(4) [OF d le, of 1] by (simp add: u32_bytes_def Let_def)
  have b2: "buf ! Suc (Suc off) = word_of_nat (?n div 256 mod 256)"
    using drop_view(4) [OF d le, of 2] by (simp add: u32_bytes_def Let_def)
  have b3: "buf ! (off + 3) = word_of_nat (?n mod 256)"
    using drop_view(4) [OF d le, of 3] by (simp add: u32_bytes_def Let_def)
  have s0: "?n div 16777216 < 256" using n by simp
  have e1: "?n div 65536 = ?n div 256 div 256" by (simp add: div_mult2_eq)
  have e2: "?n div 16777216 = ?n div 65536 div 256" by (simp add: div_mult2_eq)
  have q1: "?n div 65536 div 256 * 256 + ?n div 65536 mod 256 = ?n div 65536" by simp
  have q2: "?n div 256 div 256 * 256 + ?n div 256 mod 256 = ?n div 256" by simp
  have q3: "?n div 256 * 256 + ?n mod 256 = ?n" by simp
  have "((?n div 16777216 * 256 + ?n div 65536 mod 256) * 256 + ?n div 256 mod 256) * 256
          + ?n mod 256 = ?n"
    unfolding e2 q1 unfolding e1 q2 by (rule q3)
  then show ?thesis
    using s0 by (simp add: u32be_at_def b0 b1 b2 b3 unat_byte_of_nat)
qed

lemma length_u32_bytes: "length (u32_bytes w) = 4"
  by (simp add: u32_bytes_def Let_def)

lemma reads_UInt32BE: "reads_as UInt32BE_readFrom (u32_bytes w) w"
  unfolding reads_as_def
proof (intro allI impI)
  fix buf :: "byte list" and off :: nat and rest :: "byte list"
  assume le: "off \<le> length buf" and d: "drop off buf = u32_bytes w @ rest"
  show "UInt32BE_readFrom buf off = Inr (w, off + length (u32_bytes w))"
    using drop_view(2) [OF d le] u32be_at_bytes [OF le d]
    by (simp add: UInt32BE_readFrom_def length_u32_bytes)
qed

lemma cont_at_0: "cont_at (c # r) 0 = (if 128 \<le> c \<and> c < 192 then Some (c - 128) else None)"
  by (simp add: cont_at_def)

lemma cont_at_Suc: "cont_at (c # r) (Suc i) = cont_at r i"
  by (simp add: cont_at_def)

lemma utf8_step_1: "cp < 128 \<Longrightarrow> utf8_step cp rest = (cp, 0)"
  by (simp add: utf8_step_def)

lemma utf8_step_2:
  assumes "128 \<le> cp" "cp < 2048"
  shows "utf8_step (192 + cp div 64) ((128 + cp mod 64) # rest) = (cp, 1)"
proof -
  have a: "2 \<le> cp div 64" "cp div 64 < 32" using assms by arith+
  have b: "cp mod 64 < 64" by simp
  have c: "cp div 64 * 64 + cp mod 64 = cp" by simp
  show ?thesis
    using a b c unfolding utf8_step_def cont_at_0 by simp
qed

lemma utf8_step_3:
  assumes "2048 \<le> cp" "cp < 65536" "\<not> (55296 \<le> cp \<and> cp < 57344)"
  shows "utf8_step (224 + cp div 4096) ((128 + cp div 64 mod 64) # (128 + cp mod 64) # rest) = (cp, 2)"
proof -
  have a: "cp div 4096 < 16" using assms by arith
  have b: "cp mod 64 < 64" "cp div 64 mod 64 < 64" by simp_all
  have q: "cp div 64 div 64 * 64 + cp div 64 mod 64 = cp div 64" by simp
  have d: "cp div 4096 = cp div 64 div 64" by (simp add: div_mult2_eq)
  have c: "(cp div 4096 * 64 + cp div 64 mod 64) * 64 + cp mod 64 = cp"
    unfolding d q by simp
  show ?thesis
    using a b c assms unfolding utf8_step_def cont_at_0 cont_at_Suc One_nat_def by simp
qed

lemma utf8_step_4:
  assumes "65536 \<le> cp" "cp < 1114112"
  shows "utf8_step (240 + cp div 262144)
           ((128 + cp div 4096 mod 64) # (128 + cp div 64 mod 64) # (128 + cp mod 64) # rest) = (cp, 3)"
proof -
  have a: "cp div 262144 < 5" using assms by arith
  have b: "cp mod 64 < 64" "cp div 64 mod 64 < 64" "cp div 4096 mod 64 < 64" by simp_all
  have q: "cp div 64 div 64 * 64 + cp div 64 mod 64 = cp div 64" by simp
  have q2: "cp div 4096 div 64 * 64 + cp div 4096 mod 64 = cp div 4096" by simp
  have d: "cp div 4096 = cp div 64 div 64" by (simp add: div_mult2_eq)
  have e: "cp div 262144 = cp div 4096 div 64" by (simp add: div_mult2_eq)
  have c0: "cp div 262144 * 64 + cp div 4096 mod 64 = cp div 4096"
    unfolding e q2 by simp
  have c: "((cp div 262144 * 64 + cp div 4096 mod 64) * 64 + cp div 64 mod 64) * 64 + cp mod 64 = cp"
    unfolding c0 unfolding d q by simp
  have two: "(2::nat) = Suc (Suc 0)" by simp
  show ?thesis
    using a b c assms unfolding utf8_step_def cont_at_0 cont_at_Suc One_nat_def two by simp
qed

lemma utf8_dec_enc1:
  assumes s: "is_scalar cp"
  shows "utf8_dec (utf8_enc1 cp @ rest) = cp # utf8_dec rest"
proof -
  consider "cp < 128" | "128 \<le> cp \<and> cp < 2048" | "2048 \<le> cp \<and> cp < 65536" | "65536 \<le> cp"
    by arith
  then show ?thesis
  proof cases
    case 1
    then show ?thesis by (simp add: utf8_enc1_def utf8_step_1)
  next
    case 2
    then show ?thesis by (simp add: utf8_enc1_def utf8_step_2)
  next
    case 3
    then show ?thesis using s by (simp add: utf8_enc1_def utf8_step_3 is_scalar_def)
  next
    case 4
    then show ?thesis using s by (simp add: utf8_enc1_def utf8_step_4 is_scalar_def)
  qed
qed

lemma utf8_dec_enc: "list_all is_scalar s \<Longrightarrow> utf8_dec (concat (map utf8_enc1 s)) = s"
  by (induction s) (simp_all add: utf8_dec_enc1)

lemma utf8_enc1_bytes: "list_all (\<lambda>b. b < 256) (utf8_enc1 cp)"
proof -
  have m: "cp mod 64 < 128" "cp div 64 mod 64 < 128" "cp div 4096 mod 64 < 128"
    by (rule less_le_trans [where y = 64]; simp)+
  show ?thesis
  proof (cases "cp < 128")
    case True
    then show ?thesis by (simp add: utf8_enc1_def)
  next
    case a: False
    show ?thesis
    proof (cases "cp < 2048")
      case True
      then have "cp div 64 < 32" by simp
      with a True m show ?thesis by (simp add: utf8_enc1_def)
    next
      case b: False
      show ?thesis
      proof (cases "is_scalar cp")
        case False
        with a b show ?thesis by (simp add: utf8_enc1_def)
      next
        case s: True
        show ?thesis
        proof (cases "cp < 65536")
          case True
          then have "cp div 4096 < 16" by simp
          with a b s True m show ?thesis by (simp add: utf8_enc1_def)
        next
          case c: False
          from s have "cp < 1114112" by (simp add: is_scalar_def)
          then have "cp div 262144 < 5" by simp
          with a b s c m show ?thesis by (simp add: utf8_enc1_def)
        qed
      qed
    qed
  qed
qed

lemma map_unat_of_nat: "list_all (\<lambda>b. b < 256) xs \<Longrightarrow> map unat (map word_of_nat xs :: byte list) = xs"
  by (induction xs) (simp_all add: unat_byte_of_nat)

lemma utf8_enc_bytes: "list_all (\<lambda>b. b < 256) (concat (map utf8_enc1 s))"
  by (induction s) (simp_all add: utf8_enc1_bytes)

lemma utf8_decode_encode: "list_all is_scalar s \<Longrightarrow> utf8_decode (utf8_encode s) = s"
  by (simp add: utf8_decode_def utf8_encode_def map_unat_of_nat [OF utf8_enc_bytes] utf8_dec_enc
      del: map_map)

lemma reads_str1:
  assumes "wf_str1 s"
  shows "reads_as str1_readFrom (str1_bytes s) s"
proof -
  let ?bs = "utf8_encode s"
  have len: "unat (word_of_nat (length ?bs) :: byte) = length ?bs"
    using assms by (simp add: wf_str1_def unat_byte_of_nat)
  have "reads_as (\<lambda>buf off. case bytes_readFrom (length ?bs) buf off of Inl e \<Rightarrow> Inl e
                     | Inr (v', off1) \<Rightarrow> Inr (utf8_decode v', off1)) ?bs (utf8_decode ?bs)"
    by (rule reads_map [OF reads_bytes]) simp
  then have "reads_as (\<lambda>buf off. case bytes_readFrom (unat (word_of_nat (length ?bs) :: byte)) buf off of
                     Inl e \<Rightarrow> Inl e | Inr (v', off1) \<Rightarrow> Inr (utf8_decode v', off1)) ?bs s"
    using assms by (simp add: len utf8_decode_encode wf_str1_def)
  from reads_bind [where K = "\<lambda>l buf off. case bytes_readFrom (unat l) buf off of
                     Inl e \<Rightarrow> Inl e | Inr (v', off1) \<Rightarrow> Inr (utf8_decode v', off1)",
                   OF reads_UInt8 this]
  show ?thesis
    by (rule reads_eq) (simp_all add: str1_bytes_def str1_readFrom_def)
qed

lemma reads_header1_entries:
  "list_all (\<lambda>(k, v). wf_str1 k \<and> wf_str1 v) hs \<Longrightarrow>
   reads_as (header1_readEntries (length hs)) (hdr_bytes hs) hs"
proof (induction hs)
  case Nil
  show ?case by (simp add: reads_as_def hdr_bytes_simps)
next
  case (Cons kv hs)
  obtain k v where kv: "kv = (k, v)" by (cases kv)
  from Cons.prems have wf: "wf_str1 k" "wf_str1 v" "list_all (\<lambda>(k, v). wf_str1 k \<and> wf_str1 v) hs"
    by (simp_all add: kv)
  have tl: "reads_as (\<lambda>buf off. case header1_readEntries (length hs) buf off of Inl e \<Rightarrow> Inl e
                       | Inr (hs', off1) \<Rightarrow> Inr ((k, v) # hs', off1)) (hdr_bytes hs) ((k, v) # hs)"
    by (rule reads_map [OF Cons.IH [OF wf(3)]])
  have "reads_as (\<lambda>buf off. case str1_readFrom buf off of Inl e \<Rightarrow> Inl e
            | Inr (v', off1) \<Rightarrow>
                (case header1_readEntries (length hs) buf off1 of Inl e \<Rightarrow> Inl e
                 | Inr (hs', off2) \<Rightarrow> Inr ((k, v') # hs', off2)))
          (str1_bytes v @ hdr_bytes hs) ((k, v) # hs)"
    by (rule reads_bind [where K = "\<lambda>v' buf off1. case header1_readEntries (length hs) buf off1 of
                 Inl e \<Rightarrow> Inl e | Inr (hs', off2) \<Rightarrow> Inr ((k, v') # hs', off2)",
               OF reads_str1 [OF wf(2)] tl])
  from reads_bind [where K = "\<lambda>k' buf off. case str1_readFrom buf off of Inl e \<Rightarrow> Inl e
            | Inr (v', off1) \<Rightarrow>
                (case header1_readEntries (length hs) buf off1 of Inl e \<Rightarrow> Inl e
                 | Inr (hs', off2) \<Rightarrow> Inr ((k', v') # hs', off2))",
            OF reads_str1 [OF wf(1)] this]
  show ?case
    unfolding kv by (rule reads_eq) (simp_all add: hdr_bytes_simps split: sum.splits)
qed

lemma reads_header1:
  assumes "wf_headers hs"
  shows "reads_as header1_readFrom (header1_bytes hs) hs"
proof -
  from assms have wf: "length hs \<le> 255" "list_all (\<lambda>(k, v). wf_str1 k \<and> wf_str1 v) hs"
    by (simp_all add: wf_headers_def)
  have len: "unat (word_of_nat (length hs) :: byte) = length hs"
    using wf by (simp add: unat_byte_of_nat)
  have "reads_as (header1_readEntries (unat (word_of_nat (length hs) :: byte))) (hdr_bytes hs) hs"
    unfolding len by (rule reads_header1_entries [OF wf(2)])
  from reads_bind [where K = "\<lambda>nh. header1_readEntries (unat nh)", OF reads_UInt8 this]
  show ?thesis
    by (rule reads_eq) (simp_all add: header1_bytes_def header1_readFrom_def)
qed

lemma reads_Checksum:
  assumes "wf_csum c"
  shows "reads_as Checksum_readFrom (Checksum_bytes c) c"
proof -
  let ?w = "length (csum_digest c)"
  have "reads_as (\<lambda>buf off. case bytes_readFrom ?w buf off of Inl e \<Rightarrow> Inl e
            | Inr (d, off1) \<Rightarrow> Inr (\<lparr>csum_type = csum_type c, csum_digest = d\<rparr>, off1))
          (csum_digest c) \<lparr>csum_type = csum_type c, csum_digest = csum_digest c\<rparr>"
    by (rule reads_map [OF reads_bytes]) simp
  then have "reads_as (\<lambda>buf off. case Checksum_offsetWidth (unat (csum_type c)) of
              None \<Rightarrow> Inl InvalidChecksumType
            | Some w \<Rightarrow> (case bytes_readFrom w buf off of Inl e \<Rightarrow> Inl e
                | Inr (d, off1) \<Rightarrow> Inr (\<lparr>csum_type = csum_type c, csum_digest = d\<rparr>, off1)))
          (csum_digest c) c"
    using assms by (cases c) (simp add: wf_csum_def)
  from reads_bind [where K = "\<lambda>t buf off. case Checksum_offsetWidth (unat t) of
              None \<Rightarrow> Inl InvalidChecksumType
            | Some w \<Rightarrow> (case bytes_readFrom w buf off of Inl e \<Rightarrow> Inl e
                | Inr (d, off1) \<Rightarrow> Inr (\<lparr>csum_type = t, csum_digest = d\<rparr>, off1))",
            OF reads_UInt8 this]
  show ?thesis
    by (rule reads_eq) (simp_all add: Checksum_bytes_def Checksum_readFrom_def)
qed

lemma reads_arg2:
  assumes "length a \<le> 65535"
  shows "reads_as arg2_readFrom (arg2_bytes a) a"
  by (rule reads_eq [OF reads_bind [where K = "\<lambda>len. bytes_readFrom len",
          OF reads_UInt16BE [OF assms] reads_bytes [OF refl]]])
     (simp_all add: arg2_bytes_def arg2_readFrom_def)

lemma arg2_bytes_nonempty: "arg2_bytes a \<noteq> []"
  by (simp add: arg2_bytes_def u16_bytes_def)

lemma args_readAll_bytes:
  "wf_args as \<Longrightarrow> off \<le> length buf \<Longrightarrow> drop off buf = args_bytes as \<Longrightarrow>
   args_readAll buf off = Inr (as, length buf)"
proof (induction as arbitrary: off)
  case Nil
  then have "length buf \<le> off" by (simp add: args_bytes_def)
  with Nil show ?case by (subst args_readAll.simps) simp
next
  case (Cons a as)
  from Cons.prems have wf: "length a \<le> 65535" "wf_args as" by (simp_all add: wf_args_def)
  have d: "drop off buf = arg2_bytes a @ args_bytes as"
    using Cons.prems by (simp add: args_bytes_def)
  have lt: "\<not> length buf \<le> off"
    using d arg2_bytes_nonempty [of a] by (cases "length buf \<le> off") auto
  have r: "arg2_readFrom buf off = Inr (a, off + length (arg2_bytes a))"
    using reads_arg2 [OF wf(1)] Cons.prems(2) d unfolding reads_as_def by blast
  have "args_readAll buf (off + length (arg2_bytes a)) = Inr (as, length buf)"
    using drop_view(1,2) [OF d Cons.prems(2)] wf(2) by (intro Cons.IH) simp_all
  then show ?case
    using lt r by (subst args_readAll.simps) simp
qed

lemma reads_at:
  assumes "reads_as R bs v" "drop off buf = bs @ rest" "off \<le> length buf"
  shows "R buf off = Inr (v, off + length bs)"
    and "drop (off + length bs) buf = rest"
    and "off + length bs \<le> length buf"
  using assms drop_view(1,2) [OF assms(2,3)] unfolding reads_as_def by blast+

lemma writes_at:
  assumes "writes W bs" "buf = overwrite buf0 o0 pre" "off = o0 + length pre"
    "o0 + length pre + length bs \<le> length buf0"
  shows "W buf off = Inr (overwrite buf0 o0 (pre @ bs), o0 + length (pre @ bs))"
proof -
  have l: "length buf = length buf0" using assms by (simp add: overwrite_length)
  have "W buf off = Inr (overwrite buf off bs, off + length bs)"
    using assms l by (simp add: writes_def)
  moreover have "overwrite buf off bs = overwrite buf0 o0 (pre @ bs)"
    unfolding assms(2,3) using assms(4) by (rule overwrite_overwrite)
  ultimately show ?thesis using assms(3) by simp
qed

lemma length_Tracing_bytes: "length (Tracing_bytes t) = 25"
  by (simp add: Tracing_bytes_def length_u32_bytes)

lemma reads_Tracing: "reads_as Tracing_readFrom (Tracing_bytes t) t"
  unfolding reads_as_def
proof (intro allI impI)
  fix buf :: "byte list" and off :: nat and rest :: "byte list"
  assume le: "off \<le> length buf" and d: "drop off buf = Tracing_bytes t @ rest"
  let ?s1 = "fst (tr_spanid t)" and ?s2 = "snd (tr_spanid t)"
  let ?p1 = "fst (tr_parentid t)" and ?p2 = "snd (tr_parentid t)"
  let ?t1 = "fst (tr_traceid t)" and ?t2 = "snd (tr_traceid t)"
  have d0: "drop off buf = u32_bytes ?s1 @ (u32_bytes ?s2 @ u32_bytes ?p1 @ u32_bytes ?p2 @
      u32_bytes ?t1 @ u32_bytes ?t2 @ [tr_flags t] @ rest)"
    using d by (simp add: Tracing_bytes_def)
  note r0 = reads_at [OF reads_UInt32BE d0 le, unfolded length_u32_bytes]
  note r1 = reads_at [OF reads_UInt32BE r0(2,3), unfolded length_u32_bytes]
  note r2 = reads_at [OF reads_UInt32BE r1(2,3), unfolded length_u32_bytes]
  note r3 = reads_at [OF reads_UInt32BE r2(2,3), unfolded length_u32_bytes]
  note r4 = reads_at [OF reads_UInt32BE r3(2,3), unfolded length_u32_bytes]
  note r5 = reads_at [OF reads_UInt32BE r4(2,3), unfolded length_u32_bytes]
  note r6 = reads_at [OF reads_UInt8 r5(2,3)]
  have u: "word_of_nat (u32be_at buf off) = ?s1" "word_of_nat (u32be_at buf (off + 4)) = ?s2"
    "word_of_nat (u32be_at buf (off + 8)) = ?p1" "word_of_nat (u32be_at buf (off + 12)) = ?p2"
    "word_of_nat (u32be_at buf (off + 16)) = ?t1" "word_of_nat (u32be_at buf (off + 20)) = ?t2"
    using r0(1) r1(1) r2(1) r3(1) r4(1) r5(1) r0(3) r1(3) r2(3) r3(3) r4(3) r5(3)
    by (simp_all add: UInt32BE_readFrom_def add.assoc split: if_splits)
  have f: "buf ! (off + 24) = tr_flags t" "off + 25 \<le> length buf"
    using r6(1,3) by (simp_all add: UInt8_readFrom_def add.assoc split: if_splits)
  show "Tracing_readFrom buf off = Inr (t, off + length (Tracing_bytes t))"
    using u f by (cases t) (simp add: Tracing_readFrom_def length_Tracing_bytes)
qed

lemma writeCallReqInto_bytes:
  assumes wf: "wf_req body"
    and len: "start + 1 + length (req_body_bytes body) \<le> length buf"
  shows "writeCallReqInto hasCont body buf start =
           Inr (overwrite buf start (written_flags hasCont (req_flags body) # req_body_bytes body),
                start + 1 + length (req_body_bytes body),
                body\<lparr>req_flags := written_flags hasCont (req_flags body)\<rparr>)"
proof -
  let ?b1 = "u32_bytes (req_ttl body)" and ?b2 = "Tracing_bytes (req_tracing body)"
  let ?b3 = "str1_bytes (req_service body)" and ?b4 = "header1_bytes (req_headers body)"
  let ?b5 = "Checksum_bytes (req_csum body)" and ?b6 = "args_bytes (req_args body)"
  let ?o = "start + 1"
  from wf have wfs: "wf_str1 (req_service body)" "wf_headers (req_headers body)"
    "wf_csum (req_csum body)" "wf_args (req_args body)" and ttl: "\<not> req_ttl body \<le> 0"
    by (auto simp: wf_req_def)
  from len have len': "?o + length (?b1 @ ?b2 @ ?b3 @ ?b4 @ ?b5 @ ?b6) \<le> length buf"
    by (simp add: req_body_bytes_def)
  have w1: "UInt32BE_writeInto (req_ttl body) buf ?o = Inr (overwrite buf ?o ([] @ ?b1), ?o + length ([] @ ?b1))"
    using len' by (intro writes_at [OF writes_UInt32BE]) (simp_all add: overwrite_nil)
  have w2: "Tracing_writeInto (req_tracing body) (overwrite buf ?o ([] @ ?b1)) (?o + length ([] @ ?b1))
      = Inr (overwrite buf ?o (?b1 @ ?b2), ?o + length (?b1 @ ?b2))"
    using len' by (intro writes_at [OF writes_Tracing]) simp_all
  have w3: "str1_writeInto (req_service body) (overwrite buf ?o (?b1 @ ?b2)) (?o + length (?b1 @ ?b2))
      = Inr (overwrite buf ?o ((?b1 @ ?b2) @ ?b3), ?o + length ((?b1 @ ?b2) @ ?b3))"
    using len' by (intro writes_at [OF writes_str1 [OF wfs(1)]]) simp_all
  have w4: "header1_writeInto (req_headers body) (overwrite buf ?o ((?b1 @ ?b2) @ ?b3))
        (?o + length ((?b1 @ ?b2) @ ?b3))
      = Inr (overwrite buf ?o (((?b1 @ ?b2) @ ?b3) @ ?b4), ?o + length (((?b1 @ ?b2) @ ?b3) @ ?b4))"
    using len' by (intro writes_at [OF writes_header1 [OF wfs(2)]]) simp_all
  have w5: "Checksum_writeInto (req_csum body) (overwrite buf ?o (((?b1 @ ?b2) @ ?b3) @ ?b4))
        (?o + length (((?b1 @ ?b2) @ ?b3) @ ?b4))
      = Inr (overwrite buf ?o ((((?b1 @ ?b2) @ ?b3) @ ?b4) @ ?b5),
             ?o + length ((((?b1 @ ?b2) @ ?b3) @ ?b4) @ ?b5))"
    using len' by (intro writes_at [OF writes_Checksum [OF wfs(3)]]) simp_all
  have w6: "args_writeAll (req_args body) (overwrite buf ?o ((((?b1 @ ?b2) @ ?b3) @ ?b4) @ ?b5))
        (?o + length ((((?b1 @ ?b2) @ ?b3) @ ?b4) @ ?b5))
      = Inr (overwrite buf ?o (((((?b1 @ ?b2) @ ?b3) @ ?b4) @ ?b5) @ ?b6),
             ?o + length (((((?b1 @ ?b2) @ ?b3) @ ?b4) @ ?b5) @ ?b6))"
    using len' by (intro writes_at [OF writes_args [OF wfs(4)]]) simp_all
  have e: "((((?b1 @ ?b2) @ ?b3) @ ?b4) @ ?b5) @ ?b6 = req_body_bytes body"
    by (simp add: req_body_bytes_def)
  have w7: "UInt8_writeInto fl (overwrite buf ?o (req_body_bytes body)) start
      = Inr (overwrite buf start (fl # req_body_bytes body), start + 1)" for fl
    using len
    by (simp add: UInt8_writeInto_def overwrite_length overwrite_update_head)
  show ?thesis
    unfolding writeCallReqInto_def argsrw_writeInto_def Let_def
    using ttl w1 w2 w3 w4 w5 w6 [unfolded e] w7
    by (simp add: written_flags_def)
qed

lemma readCallReqFrom_bytes:
  assumes wf: "wf_req body"
    and d: "drop off buf = fl # req_body_bytes body"
    and le: "off \<le> length buf"
  shows "readCallReqFrom buf off = Inr (body\<lparr>req_flags := fl\<rparr>, length buf)"
proof -
  from wf have wfs: "wf_str1 (req_service body)" "wf_headers (req_headers body)"
    "wf_csum (req_csum body)" "wf_args (req_args body)" and ttl: "\<not> req_ttl body \<le> 0"
    by (auto simp: wf_req_def)
  have d0: "drop off buf = [fl] @ (u32_bytes (req_ttl body) @ (Tracing_bytes (req_tracing body) @
      (str1_bytes (req_service body) @ (header1_bytes (req_headers body) @
      (Checksum_bytes (req_csum body) @ args_bytes (req_args body))))))"
    using d by (simp add: req_body_bytes_def)
  note r0 = reads_at [OF reads_UInt8 d0 le]
  note r1 = reads_at [OF reads_UInt32BE r0(2,3)]
  note r2 = reads_at [OF reads_Tracing r1(2,3)]
  note r3 = reads_at [OF reads_str1 [OF wfs(1)] r2(2,3)]
  note r4 = reads_at [OF reads_header1 [OF wfs(2)] r3(2,3)]
  have d5: "drop (off + length [fl] + length (u32_bytes (req_ttl body)) +
      length (Tracing_bytes (req_tracing body)) + length (str1_bytes (req_service body)) +
      length (header1_bytes (req_headers body))) buf = Checksum_bytes (req_csum body) @ args_bytes (req_args body)"
    using r4(2) by simp
  note r5 = reads_at [OF reads_Checksum [OF wfs(3)] d5 r4(3)]
  note r6 = args_readAll_bytes [OF wfs(4) r5(3) r5(2)]
  show ?thesis
    unfolding readCallReqFrom_def argsrw_readFrom_def
    using ttl r0(1) r1(1) r2(1) r3(1) r4(1) r5(1) r6
    by (cases body) simp
qed

theorem callreq_roundtrip_bytes:
  assumes wf: "wf_req body"
    and len: "length buf = start + 1 + length (req_body_bytes body)"
  shows "\<exists>buf'. writeCallReqInto hasCont body buf start
             = Inr (buf', length buf, body\<lparr>req_flags := written_flags hasCont (req_flags body)\<rparr>)
           \<and> readCallReqFrom buf' start
             = Inr (body\<lparr>req_flags := written_flags hasCont (req_flags body)\<rparr>, length buf)"
proof -
  let ?fl = "written_flags hasCont (req_flags body)"
  let ?buf' = "overwrite buf start (?fl # req_body_bytes body)"
  have w: "writeCallReqInto hasCont body buf start = Inr (?buf', length buf, body\<lparr>req_flags := ?fl\<rparr>)"
    using writeCallReqInto_bytes [OF wf, of start buf hasCont] len by simp
  have l: "length ?buf' = length buf" using len by (simp add: overwrite_length)
  have d: "drop start ?buf' = ?fl # req_body_bytes body"
    using len by (simp add: overwrite_drop)
  have "readCallReqFrom ?buf' start = Inr (body\<lparr>req_flags := ?fl\<rparr>, length ?buf')"
    using len l by (intro readCallReqFrom_bytes [OF wf d]) simp
  with w l show ?thesis by auto
qed

lemma write_frameD:
  assumes "write_frame W" "W buf off = Inr (buf', off')"
  shows "off \<le> off'" "length buf' = length buf" "take off buf' = take off buf"
  using assms unfolding write_frame_def by blast+

lemma take_eq_nth: "take n xs = take n ys \<Longrightarrow> i < n \<Longrightarrow> xs ! i = ys ! i"
  by (metis nth_take)

lemma take_eq_le: "take n xs = take n ys \<Longrightarrow> m \<le> n \<Longrightarrow> take m xs = take m ys"
  by (metis min.absorb1 take_take)

lemma write_frame_UInt8: "write_frame (UInt8_writeInto v)"
  by (auto simp: write_frame_def UInt8_writeInto_def)

lemma write_frame_bytes: "write_frame (bytes_writeInto bs)"
  by (auto simp: write_frame_def bytes_writeInto_def)

lemma write_frame_seq:
  assumes "write_frame W1" "write_frame W2"
  shows "write_frame (\<lambda>buf off. case W1 buf off of Inl e \<Rightarrow> Inl e | Inr (buf1, off1) \<Rightarrow> W2 buf1 off1)"
  unfolding write_frame_def
proof (intro allI impI)
  fix buf buf' :: "byte list" and off off' :: nat
  assume "(case W1 buf off of Inl e \<Rightarrow> Inl e | Inr (buf1, off1) \<Rightarrow> W2 buf1 off1) = Inr (buf', off')"
  then obtain buf1 off1 where w1: "W1 buf off = Inr (buf1, off1)" and w2: "W2 buf1 off1 = Inr (buf', off')"
    by (auto split: sum.splits)
  note f1 = write_frameD [OF assms(1) w1] and f2 = write_frameD [OF assms(2) w2]
  have "take off buf' = take off buf1" using f2(3) f1(1) by (rule take_eq_le)
  with f1 f2 show "off \<le> off' \<and> length buf' = length buf \<and> take off buf' = take off buf"
    by simp
qed

lemma write_frame_eq: "write_frame W' \<Longrightarrow> (\<And>buf off. W buf off = W' buf off) \<Longrightarrow> write_frame W"
  by (simp add: write_frame_def)

lemma write_frame_fail: "write_frame (\<lambda>buf off. Inl e)"
  by (simp add: write_frame_def)

lemma write_frame_if: "write_frame W \<Longrightarrow> write_frame (\<lambda>buf off. if c then Inl e else W buf off)"
  by (simp add: write_frame_def)

lemma write_frame_str1: "write_frame (str1_writeInto s)"
  by (rule write_frame_eq [OF write_frame_if [OF write_frame_seq [OF write_frame_UInt8 write_frame_bytes]]])
     (simp add: str1_writeInto_def Let_def)

lemma write_frame_header1_entries: "write_frame (header1_writeEntries hs)"
proof (induction hs)
  case Nil
  show ?case by (simp add: write_frame_def)
next
  case (Cons kv hs)
  obtain k v where kv: "kv = (k, v)" by (cases kv)
  show ?case
    unfolding kv
    by (rule write_frame_eq [OF write_frame_seq [OF write_frame_str1
          write_frame_seq [OF write_frame_str1 Cons.IH]]])
       (simp split: sum.splits)
qed

lemma write_frame_header1: "write_frame (header1_writeInto hs)"
  by (rule write_frame_eq [OF write_frame_if [OF write_frame_seq [OF write_frame_UInt8
        write_frame_header1_entries]]])
     (simp add: header1_writeInto_def)

lemma write_frame_Checksum: "write_frame (Checksum_writeInto c)"
proof (cases "Checksum_offsetWidth (unat (csum_type c))")
  case None
  show ?thesis
    by (rule write_frame_eq [OF write_frame_fail]) (simp add: Checksum_writeInto_def None)
next
  case (Some w)
  show ?thesis
    by (rule write_frame_eq [OF write_frame_if [OF write_frame_seq [OF write_frame_UInt8
          write_frame_bytes]]])
       (simp add: Checksum_writeInto_def Some)
qed

lemma write_frame_arg2: "write_frame (arg2_writeInto a)"
  by (rule write_frame_eq [OF write_frame_seq [OF write_frame_if [OF write_frame_bytes]
        write_frame_bytes]])
     (simp add: arg2_writeInto_def UInt16BE_writeInto_def)

lemma write_frame_args: "write_frame (args_writeAll as)"
proof (induction as)
  case Nil
  show ?case by (simp add: write_frame_def)
next
  case (Cons a as)
  show ?case
    by (rule write_frame_eq [OF write_frame_seq [OF write_frame_arg2 Cons.IH]]) simp
qed

lemma write_frame_Tracing: "write_frame (Tracing_writeInto t)"
  by (rule write_frame_eq [OF write_frame_bytes]) (simp add: Tracing_writeInto_def)

lemma write_frame_UInt32BE: "write_frame (UInt32BE_writeInto w)"
  by (rule write_frame_eq [OF write_frame_bytes]) (simp add: UInt32BE_writeInto_def)

lemma argsrw_writeInto_frame:
  assumes "argsrw_writeInto hasCont flags c as buf off = Inr (buf', off', flags')"
  shows "off \<le> off'" "length buf' = length buf" "take off buf' = take off buf"
    "flags' = written_flags hasCont flags"
proof -
  from assms obtain buf1 off1 where
    w1: "Checksum_writeInto c buf off = Inr (buf1, off1)" and
    w2: "args_writeAll as buf1 off1 = Inr (buf', off')" and
    fl: "flags' = (if hasCont then flags OR CallFlags_Fragment else flags)"
    by (auto simp: argsrw_writeInto_def split: sum.splits)
  note f1 = write_frameD [OF write_frame_Checksum w1] and f2 = write_frameD [OF write_frame_args w2]
  show "off \<le> off'" "length buf' = length buf"
    using f1 f2 by simp_all
  show "take off buf' = take off buf" using take_eq_le [OF f2(3) f1(1)] f1(3) by simp
  show "flags' = written_flags hasCont flags" using fl by (simp add: written_flags_def)
qed

lemma length_hdr_bytes:
  "length (hdr_bytes hs) = sum_list (map (\<lambda>(k, v). (1 + length (utf8_encode k)) + (1 + length (utf8_encode v))) hs)"
  by (induction hs) (auto simp: hdr_bytes_simps str1_bytes_def)

lemma length_args_bytes: "length (args_bytes as) = sum_list (map (\<lambda>a. 2 + length a) as)"
  by (induction as) (auto simp: args_bytes_def arg2_bytes_def u16_bytes_def)

lemma callReqLength_bytes:
  "wf_req body \<Longrightarrow> callReqLength body = Inr (1 + length (req_body_bytes body))"
  by (simp add: callReqLength_def Tracing_RW_byteLength_def Tracing_byteLength_def str1_byteLength_def
      header1_byteLength_def argsrw_byteLength_def wf_req_def wf_csum_def req_body_bytes_def
      length_u32_bytes length_Tracing_bytes str1_bytes_def header1_bytes_def length_hdr_bytes
      Checksum_bytes_def length_args_bytes)

lemma callResLength_bytes:
  "wf_res body \<Longrightarrow> callResLength body = Inr (1 + length (res_body_bytes body))"
  by (simp add: callResLength_def Tracing_RW_byteLength_def Tracing_byteLength_def
      header1_byteLength_def argsrw_byteLength_def wf_res_def wf_csum_def res_body_bytes_def
      length_Tracing_bytes header1_bytes_def length_hdr_bytes
      Checksum_bytes_def length_args_bytes)

lemma writeCallResInto_bytes:
  assumes wf: "wf_res body"
    and len: "start + 1 + length (res_body_bytes body) \<le> length buf"
  shows "writeCallResInto hasCont body buf start =
           Inr (overwrite buf start (written_flags hasCont (res_flags body) # res_body_bytes body),
                start + 1 + length (res_body_bytes body),
                body\<lparr>res_flags := written_flags hasCont (res_flags body)\<rparr>)"
proof -
  let ?b1 = "[res_code body]" and ?b2 = "Tracing_bytes (res_tracing body)"
  let ?b4 = "header1_bytes (res_headers body)"
  let ?b5 = "Checksum_bytes (res_csum body)" and ?b6 = "args_bytes (res_args body)"
  let ?o = "start + 1"
  from wf have wfs: "wf_headers (res_headers body)"
    "wf_csum (res_csum body)" "wf_args (res_args body)"
    by (auto simp: wf_res_def)
  from len have len': "?o + length (?b1 @ ?b2 @ ?b4 @ ?b5 @ ?b6) \<le> length buf"
    by (simp add: res_body_bytes_def)
  have w1: "UInt8_writeInto (res_code body) buf ?o = Inr (overwrite buf ?o ([] @ ?b1), ?o + length ([] @ ?b1))"
    using len' by (intro writes_at [OF writes_UInt8]) (simp_all add: overwrite_nil)
  have w2: "Tracing_writeInto (res_tracing body) (overwrite buf ?o ([] @ ?b1)) (?o + length ([] @ ?b1))
      = Inr (overwrite buf ?o (?b1 @ ?b2), ?o + length (?b1 @ ?b2))"
    using len' by (intro writes_at [OF writes_Tracing]) simp_all
  have w4: "header1_writeInto (res_headers body) (overwrite buf ?o (?b1 @ ?b2))
        (?o + length (?b1 @ ?b2))
      = Inr (overwrite buf ?o ((?b1 @ ?b2) @ ?b4), ?o + length ((?b1 @ ?b2) @ ?b4))"
    using len' by (intro writes_at [OF writes_header1 [OF wfs(1)]]) simp_all
  have w5: "Checksum_writeInto (res_csum body) (overwrite buf ?o ((?b1 @ ?b2) @ ?b4))
        (?o + length ((?b1 @ ?b2) @ ?b4))
      = Inr (overwrite buf ?o (((?b1 @ ?b2) @ ?b4) @ ?b5),
             ?o + length (((?b1 @ ?b2) @ ?b4) @ ?b5))"
    using len' by (intro writes_at [OF writes_Checksum [OF wfs(2)]]) simp_all
  have w6: "args_writeAll (res_args body) (overwrite buf ?o (((?b1 @ ?b2) @ ?b4) @ ?b5))
        (?o + length (((?b1 @ ?b2) @ ?b4) @ ?b5))
      = Inr (overwrite buf ?o ((((?b1 @ ?b2) @ ?b4) @ ?b5) @ ?b6),
             ?o + length ((((?b1 @ ?b2) @ ?b4) @ ?b5) @ ?b6))"
    using len' by (intro writes_at [OF writes_args [OF wfs(3)]]) simp_all
  have e: "(((?b1 @ ?b2) @ ?b4) @ ?b5) @ ?b6 = res_body_bytes body"
    by (simp add: res_body_bytes_def)
  have w7: "UInt8_writeInto fl (overwrite buf ?o (res_body_bytes body)) start
      = Inr (overwrite buf start (fl # res_body_bytes body), start + 1)" for fl
    using len
    by (simp add: UInt8_writeInto_def overwrite_length overwrite_update_head)
  show ?thesis
    unfolding writeCallResInto_def argsrw_writeInto_def Let_def
    using w1 w2 w4 w5 w6 [unfolded e] w7
    by (simp add: written_flags_def)
qed

lemma readCallResFrom_bytes:
  assumes wf: "wf_res body"
    and d: "drop off buf = fl # res_body_bytes body"
    and le: "off \<le> length buf"
  shows "readCallResFrom buf off = Inr (body\<lparr>res_flags := fl\<rparr>, length buf)"
proof -
  from wf have wfs: "wf_headers (res_headers body)"
    "wf_csum (res_csum body)" "wf_args (res_args body)"
    by (auto simp: wf_res_def)
  have d0: "drop off buf = [fl] @ ([res_code body] @ (Tracing_bytes (res_tracing body) @
      (header1_bytes (res_headers body) @
      (Checksum_bytes (res_csum body) @ args_bytes (res_args body)))))"
    using d by (simp add: res_body_bytes_def)
  note r0 = reads_at [OF reads_UInt8 d0 le]
  note r1 = reads_at [OF reads_UInt8 r0(2,3)]
  note r2 = reads_at [OF reads_Tracing r1(2,3)]
  note r4 = reads_at [OF reads_header1 [OF wfs(1)] r2(2,3)]
  have d5: "drop (off + length [fl] + length [res_code body] +
      length (Tracing_bytes (res_tracing body)) +
      length (header1_bytes (res_headers body))) buf = Checksum_bytes (res_csum body) @ args_bytes (res_args body)"
    using r4(2) by simp
  note r5 = reads_at [OF reads_Checksum [OF wfs(2)] d5 r4(3)]
  note r6 = args_readAll_bytes [OF wfs(3) r5(3) r5(2)]
  show ?thesis
    unfolding readCallResFrom_def argsrw_readFrom_def
    using r0(1) r1(1) r2(1) r4(1) r5(1) r6
    by (cases body) simp
qed

lemma utf8_encode_ascii: "list_all (\<lambda>c. c < 128) s \<Longrightarrow> utf8_encode s = map word_of_nat s"
  by (induction s) (simp_all add: utf8_encode_def utf8_enc1_def)

lemma is_scalar_ascii: "list_all (\<lambda>c. c < 128) s \<Longrightarrow> list_all is_scalar s"
  by (induction s) (simp_all add: is_scalar_def)

lemma wf_str1_ascii: "list_all (\<lambda>c. c < 128) s \<Longrightarrow> length s \<le> 255 \<Longrightarrow> wf_str1 s"
  by (simp add: wf_str1_def utf8_encode_ascii is_scalar_ascii)

lemma wf_minimal_request: "wf_req minimal_request"
  by (simp add: wf_req_def minimal_request_def wf_str1_ascii wf_headers_def wf_csum_def
      no_checksum_def Checksum_offsetWidth_def wf_args_def)

lemma wf_error_response: "wf_res error_response"
  by (simp add: wf_res_def error_response_def wf_headers_def wf_csum_def
      no_checksum_def Checksum_offsetWidth_def wf_args_def)

lemma callReqLength_minimal: "callReqLength minimal_request = Inr 48"
  by (simp add: callReqLength_def minimal_request_def Tracing_RW_byteLength_def
      Tracing_byteLength_def str1_byteLength_def header1_byteLength_def argsrw_byteLength_def
      no_checksum_def Checksum_offsetWidth_def utf8_encode_ascii)

lemma callResLength_error: "callResLength error_response = Inr 39"
  by (simp add: callResLength_def error_response_def Tracing_RW_byteLength_def
      Tracing_byteLength_def header1_byteLength_def argsrw_byteLength_def
      no_checksum_def Checksum_offsetWidth_def)

text \<open>
  C1. Structured round trip. A request body that can be written (\<open>wf_req\<close>: ttl above 0,
  strings, headers, digest and arguments within their length prefixes) is written into a
  buffer of its \<open>callReqLength\<close>, and reading that buffer returns the body as it is after
  the write: flags, ttl, tracing, service, headers in their order and with their
  duplicates, checksum type and digest, and arguments. The flags are the ones given,
  unless the args writer was told that more bodies follow: then it has set the Fragment
  bit in \<open>body.flags\<close>, and the body read has it too. The same holds for a response body,
  with its code in place of ttl and service.
\<close>

theorem structured_roundtrip:
  "(wf_req req \<longrightarrow> callReqLength req = Inr n \<longrightarrow> length buf = start + n \<longrightarrow>
      (\<exists>buf'. writeCallReqInto hasCont req buf start
                 = Inr (buf', start + n,
                        req\<lparr>req_flags := if hasCont then req_flags req OR CallFlags_Fragment
                                           else req_flags req\<rparr>)
             \<and> readCallReqFrom buf' start
                 = Inr (req\<lparr>req_flags := if hasCont then req_flags req OR CallFlags_Fragment
                                           else req_flags req\<rparr>, start + n)))
   \<and> (wf_res res \<longrightarrow> callResLength res = Inr m \<longrightarrow> length rbuf = rstart + m \<longrightarrow>
      (\<exists>buf'. writeCallResInto hasCont res rbuf rstart
                 = Inr (buf', rstart + m,
                        res\<lparr>res_flags := if hasCont then res_flags res OR CallFlags_Fragment
                                           else res_flags res\<rparr>)
             \<and> readCallResFrom buf' rstart
                 = Inr (res\<lparr>res_flags := if hasCont then res_flags res OR CallFlags_Fragment
                                           else res_flags res\<rparr>, rstart + m)))"
proof (intro conjI impI)
  assume wf: "wf_req req" and n: "callReqLength req = Inr n" and len: "length buf = start + n"
  let ?fl = "written_flags hasCont (req_flags req)"
  let ?buf' = "overwrite buf start (?fl # req_body_bytes req)"
  have n': "n = 1 + length (req_body_bytes req)"
    using callReqLength_bytes [OF wf] n by simp
  have w: "writeCallReqInto hasCont req buf start = Inr (?buf', start + n, req\<lparr>req_flags := ?fl\<rparr>)"
    using writeCallReqInto_bytes [OF wf, of start buf hasCont] len n' by simp
  have l: "length ?buf' = length buf" using len n' by (simp add: overwrite_length)
  have d: "drop start ?buf' = ?fl # req_body_bytes req"
    using len n' by (simp add: overwrite_drop)
  have "readCallReqFrom ?buf' start = Inr (req\<lparr>req_flags := ?fl\<rparr>, length ?buf')"
    using len l by (intro readCallReqFrom_bytes [OF wf d]) simp
  with w l len show "\<exists>buf'. writeCallReqInto hasCont req buf start
                 = Inr (buf', start + n,
                        req\<lparr>req_flags := if hasCont then req_flags req OR CallFlags_Fragment
                                           else req_flags req\<rparr>)
             \<and> readCallReqFrom buf' start
                 = Inr (req\<lparr>req_flags := if hasCont then req_flags req OR CallFlags_Fragment
                                           else req_flags req\<rparr>, start + n)"
    unfolding written_flags_def by auto
next
  assume wf: "wf_res res" and n: "callResLength res = Inr m" and len: "length rbuf = rstart + m"
  let ?fl = "written_flags hasCont (res_flags res)"
  let ?buf' = "overwrite rbuf rstart (?fl # res_body_bytes res)"
  have n': "m = 1 + length (res_body_bytes res)"
    using callResLength_bytes [OF wf] n by simp
  have w: "writeCallResInto hasCont res rbuf rstart = Inr (?buf', rstart + m, res\<lparr>res_flags := ?fl\<rparr>)"
    using writeCallResInto_bytes [OF wf, of rstart rbuf hasCont] len n' by simp
  have l: "length ?buf' = length rbuf" using len n' by (simp add: overwrite_length)
  have d: "drop rstart ?buf' = ?fl # res_body_bytes res"
    using len n' by (simp add: overwrite_drop)
  have "readCallResFrom ?buf' rstart = Inr (res\<lparr>res_flags := ?fl\<rparr>, length ?buf')"
    using len l by (intro readCallResFrom_bytes [OF wf d]) simp
  with w l len show "\<exists>buf'. writeCallResInto hasCont res rbuf rstart
                 = Inr (buf', rstart + m,
                        res\<lparr>res_flags := if hasCont then res_flags res OR CallFlags_Fragment
                                           else res_flags res\<rparr>)
             \<and> readCallResFrom buf' rstart
                 = Inr (res\<lparr>res_flags := if hasCont then res_flags res OR CallFlags_Fragment
                                           else res_flags res\<rparr>, rstart + m)"
    unfolding written_flags_def by auto
qed

theorem structured_roundtrip_witness:
  "wf_req minimal_request \<and> callReqLength minimal_request = Inr 48
   \<and> (\<exists>buf'. writeCallReqInto False minimal_request (replicate 48 0) 0 = Inr (buf', 48, minimal_request)
            \<and> readCallReqFrom buf' 0 = Inr (minimal_request, 48))
   \<and> wf_res error_response \<and> callResLength error_response = Inr 39
   \<and> (\<exists>buf'. writeCallResInto False error_response (replicate 39 0) 0 = Inr (buf', 39, error_response)
            \<and> readCallResFrom buf' 0 = Inr (error_response, 39))"
  using structured_roundtrip [of minimal_request 48 "replicate 48 0" 0 False error_response 39
      "replicate 39 0" 0]
    wf_minimal_request callReqLength_minimal wf_error_response callResLength_error
  by simp

lemma bind_Inr:
  "(case m of Inl e \<Rightarrow> Inl e | Inr x \<Rightarrow> f x) = Inr r \<longleftrightarrow> (\<exists>x. m = Inr x \<and> f x = Inr r)"
  by (cases m) auto

text \<open>
  C6. TTL rejection. Writing a request body whose ttl is 0 fails with InvalidTTL, whatever
  the buffer; reading a buffer that holds the flags byte and four zero bytes of ttl fails
  with InvalidTTL; no read returns a body whose ttl is 0, and no write succeeds on one.
\<close>

theorem ttl_zero_rejected:
  "(req_ttl body = 0 \<longrightarrow> writeCallReqInto hasCont body buf offset = Inl InvalidTTL)
   \<and> (offset + 5 \<le> length buf \<and> buf ! (offset + 1) = 0 \<and> buf ! (offset + 2) = 0
        \<and> buf ! (offset + 3) = 0 \<and> buf ! (offset + 4) = 0 \<longrightarrow>
        readCallReqFrom buf offset = Inl InvalidTTL)
   \<and> (\<forall>b off'. readCallReqFrom buf offset = Inr (b, off') \<longrightarrow> req_ttl b \<noteq> 0)
   \<and> (\<forall>buf' off' b'. writeCallReqInto hasCont body buf offset = Inr (buf', off', b') \<longrightarrow>
          req_ttl body \<noteq> 0 \<and> req_ttl b' \<noteq> 0)"
proof (intro conjI impI allI)
  assume "req_ttl body = 0"
  then show "writeCallReqInto hasCont body buf offset = Inl InvalidTTL"
    by (simp add: writeCallReqInto_def)
next
  assume a: "offset + 5 \<le> length buf \<and> buf ! (offset + 1) = 0 \<and> buf ! (offset + 2) = 0
        \<and> buf ! (offset + 3) = 0 \<and> buf ! (offset + 4) = 0"
  have e: "offset + 1 + 1 = offset + 2" "offset + 1 + 2 = offset + 3" "offset + 1 + 3 = offset + 4"
    by simp_all
  have "u32be_at buf (offset + 1) = 0"
    unfolding u32be_at_def e using a by simp
  with a show "readCallReqFrom buf offset = Inl InvalidTTL"
    by (simp add: readCallReqFrom_def UInt8_readFrom_def UInt32BE_readFrom_def)
next
  fix b off'
  assume "readCallReqFrom buf offset = Inr (b, off')"
  then show "req_ttl b \<noteq> 0"
    by (auto simp: readCallReqFrom_def bind_Inr split: if_splits)
next
  fix buf' off' b'
  assume w: "writeCallReqInto hasCont body buf offset = Inr (buf', off', b')"
  then show "req_ttl body \<noteq> 0"
    by (auto simp: writeCallReqInto_def)
  from w show "req_ttl b' \<noteq> 0"
    by (auto simp: writeCallReqInto_def Let_def bind_Inr split: if_splits)
qed

lemma length_minimal_request_bytes: "length (req_body_bytes minimal_request) = 47"
  using callReqLength_bytes [OF wf_minimal_request] callReqLength_minimal by simp

lemma minimal_request_flags: "req_flags minimal_request = 0"
  by (simp add: minimal_request_def)

lemma write_minimal_request:
  "writeCallReqInto hasCont minimal_request (replicate 48 0) 0 =
     Inr (overwrite (replicate 48 0) 0 (written_flags hasCont 0 # req_body_bytes minimal_request), 48,
          minimal_request\<lparr>req_flags := written_flags hasCont 0\<rparr>)"
  using writeCallReqInto_bytes [OF wf_minimal_request, of 0 "replicate 48 0" hasCont]
  by (simp only: length_minimal_request_bytes minimal_request_flags length_replicate) simp

lemma read_minimal_request:
  "readCallReqFrom (fl # req_body_bytes minimal_request) 0
     = Inr (minimal_request\<lparr>req_flags := fl\<rparr>, 48)"
  using readCallReqFrom_bytes [OF wf_minimal_request, of 0 "fl # req_body_bytes minimal_request" fl]
  by (simp add: length_minimal_request_bytes)

theorem ttl_zero_rejected_witness:
  "writeCallReqInto False (minimal_request\<lparr>req_ttl := 0\<rparr>) (replicate 48 0) 0 = Inl InvalidTTL
   \<and> readCallReqFrom (replicate 48 0) 0 = Inl InvalidTTL
   \<and> readCallReqFrom (0 # req_body_bytes minimal_request) 0 = Inr (minimal_request, 48)
   \<and> req_ttl minimal_request \<noteq> 0"
proof -
  have r: "readCallReqFrom (0 # req_body_bytes minimal_request) 0 = Inr (minimal_request, 48)"
    using read_minimal_request [of 0] by (simp add: minimal_request_def)
  have z: "req_ttl (minimal_request\<lparr>req_ttl := 0\<rparr>) = 0" by simp
  have b: "(0::nat) + 5 \<le> length (replicate 48 (0::byte))
      \<and> replicate 48 (0::byte) ! (0 + 1) = 0 \<and> replicate 48 (0::byte) ! (0 + 2) = 0
      \<and> replicate 48 (0::byte) ! (0 + 3) = 0 \<and> replicate 48 (0::byte) ! (0 + 4) = 0"
    by simp
  from ttl_zero_rejected [of "minimal_request\<lparr>req_ttl := 0\<rparr>" False "replicate 48 0" 0] z b
  have 1: "writeCallReqInto False (minimal_request\<lparr>req_ttl := 0\<rparr>) (replicate 48 0) 0 = Inl InvalidTTL"
    and 2: "readCallReqFrom (replicate 48 0) 0 = Inl InvalidTTL"
    by blast+
  from ttl_zero_rejected [of minimal_request False "0 # req_body_bytes minimal_request" 0] r
  have 3: "req_ttl minimal_request \<noteq> 0" by blast
  from 1 2 3 r show ?thesis by blast
qed

text \<open>
  C8. Deferred flags write. A successful \<open>writeCallReqInto\<close> from \<open>start\<close> is this chain
  of writes, each on the buffer that the one before left: the ttl from \<open>start + 1\<close>, the
  tracing, the service, the headers, then \<open>argsrw.writeInto\<close> (checksum and arguments),
  which hands back the final flags. After each of them the byte at \<open>start\<close> is still the
  one of the given buffer; the result is the buffer after the last of them with the byte
  at \<open>start\<close> set to the final flags, which carry the Fragment bit when the args writer
  set it. \<open>writeCallResInto\<close> does the same with the code in place of ttl and service.
\<close>

theorem deferred_flags_write:
  "(writeCallReqInto hasCont req buf start = Inr (buf', off', req') \<longrightarrow>
      (\<exists>buf1 off1 buf2 off2 buf3 off3 buf4 off4 buf5.
          UInt32BE_writeInto (req_ttl req) buf (start + 1) = Inr (buf1, off1)
          \<and> Tracing_writeInto (req_tracing req) buf1 off1 = Inr (buf2, off2)
          \<and> str1_writeInto (req_service req) buf2 off2 = Inr (buf3, off3)
          \<and> header1_writeInto (req_headers req) buf3 off3 = Inr (buf4, off4)
          \<and> argsrw_writeInto hasCont (req_flags req) (req_csum req) (req_args req) buf4 off4
              = Inr (buf5, off', req_flags req')
          \<and> start < length buf
          \<and> buf1 ! start = buf ! start \<and> buf2 ! start = buf ! start
          \<and> buf3 ! start = buf ! start \<and> buf4 ! start = buf ! start
          \<and> buf5 ! start = buf ! start
          \<and> buf' = buf5[start := req_flags req'])
      \<and> buf' ! start = req_flags req'
      \<and> req' = req\<lparr>req_flags := if hasCont then req_flags req OR CallFlags_Fragment
                                    else req_flags req\<rparr>)
   \<and> (writeCallResInto hasCont res rbuf rstart = Inr (rbuf', roff', res') \<longrightarrow>
      (\<exists>buf1 off1 buf2 off2 buf3 off3 buf4.
          UInt8_writeInto (res_code res) rbuf (rstart + 1) = Inr (buf1, off1)
          \<and> Tracing_writeInto (res_tracing res) buf1 off1 = Inr (buf2, off2)
          \<and> header1_writeInto (res_headers res) buf2 off2 = Inr (buf3, off3)
          \<and> argsrw_writeInto hasCont (res_flags res) (res_csum res) (res_args res) buf3 off3
              = Inr (buf4, roff', res_flags res')
          \<and> rstart < length rbuf
          \<and> buf1 ! rstart = rbuf ! rstart \<and> buf2 ! rstart = rbuf ! rstart
          \<and> buf3 ! rstart = rbuf ! rstart \<and> buf4 ! rstart = rbuf ! rstart
          \<and> rbuf' = buf4[rstart := res_flags res'])
      \<and> rbuf' ! rstart = res_flags res'
      \<and> res' = res\<lparr>res_flags := if hasCont then res_flags res OR CallFlags_Fragment
                                    else res_flags res\<rparr>)"
proof (intro conjI impI)
  assume w: "writeCallReqInto hasCont req buf start = Inr (buf', off', req')"
  then obtain buf1 off1 buf2 off2 buf3 off3 buf4 off4 buf5 fl x where
    w1: "UInt32BE_writeInto (req_ttl req) buf (start + 1) = Inr (buf1, off1)" and
    w2: "Tracing_writeInto (req_tracing req) buf1 off1 = Inr (buf2, off2)" and
    w3: "str1_writeInto (req_service req) buf2 off2 = Inr (buf3, off3)" and
    w4: "header1_writeInto (req_headers req) buf3 off3 = Inr (buf4, off4)" and
    w5: "argsrw_writeInto hasCont (req_flags req) (req_csum req) (req_args req) buf4 off4
           = Inr (buf5, off', fl)" and
    w6: "UInt8_writeInto fl buf5 start = Inr (buf', x)" and
    r: "req' = req\<lparr>req_flags := fl\<rparr>"
    by (auto simp: writeCallReqInto_def Let_def bind_Inr split: if_splits)
  note f1 = write_frameD [OF write_frame_UInt32BE w1]
  note f2 = write_frameD [OF write_frame_Tracing w2]
  note f3 = write_frameD [OF write_frame_str1 w3]
  note f4 = write_frameD [OF write_frame_header1 w4]
  note f5 = argsrw_writeInto_frame [OF w5]
  have t1: "take (start + 1) buf1 = take (start + 1) buf" using f1 by simp
  have t2: "take (start + 1) buf2 = take (start + 1) buf"
    using take_eq_le [OF f2(3), of "start + 1"] f1 t1 by simp
  have t3: "take (start + 1) buf3 = take (start + 1) buf"
    using take_eq_le [OF f3(3), of "start + 1"] f1 f2 t2 by simp
  have t4: "take (start + 1) buf4 = take (start + 1) buf"
    using take_eq_le [OF f4(3), of "start + 1"] f1 f2 f3 t3 by simp
  have t5: "take (start + 1) buf5 = take (start + 1) buf"
    using take_eq_le [OF f5(3), of "start + 1"] f1 f2 f3 f4 t4 by simp
  have n: "buf1 ! start = buf ! start" "buf2 ! start = buf ! start" "buf3 ! start = buf ! start"
    "buf4 ! start = buf ! start" "buf5 ! start = buf ! start"
    using take_eq_nth [OF t1, of start] take_eq_nth [OF t2, of start] take_eq_nth [OF t3, of start]
      take_eq_nth [OF t4, of start] take_eq_nth [OF t5, of start] by simp_all
  have u: "buf' = buf5[start := fl]" "start < length buf5"
    using w6 by (auto simp: UInt8_writeInto_def split: if_splits)
  have l: "start < length buf" using u(2) f1(2) f2(2) f3(2) f4(2) f5(2) by simp
  have fl: "req_flags req' = fl" using r by simp
  show "\<exists>buf1 off1 buf2 off2 buf3 off3 buf4 off4 buf5.
          UInt32BE_writeInto (req_ttl req) buf (start + 1) = Inr (buf1, off1)
          \<and> Tracing_writeInto (req_tracing req) buf1 off1 = Inr (buf2, off2)
          \<and> str1_writeInto (req_service req) buf2 off2 = Inr (buf3, off3)
          \<and> header1_writeInto (req_headers req) buf3 off3 = Inr (buf4, off4)
          \<and> argsrw_writeInto hasCont (req_flags req) (req_csum req) (req_args req) buf4 off4
              = Inr (buf5, off', req_flags req')
          \<and> start < length buf
          \<and> buf1 ! start = buf ! start \<and> buf2 ! start = buf ! start
          \<and> buf3 ! start = buf ! start \<and> buf4 ! start = buf ! start
          \<and> buf5 ! start = buf ! start
          \<and> buf' = buf5[start := req_flags req']"
    using w1 w2 w3 w4 w5 l n u(1) unfolding fl by blast
  show "buf' ! start = req_flags req'" using u fl by simp
  show "req' = req\<lparr>req_flags := if hasCont then req_flags req OR CallFlags_Fragment
                                    else req_flags req\<rparr>"
    using r f5(4) by (simp add: written_flags_def)
next
  assume w: "writeCallResInto hasCont res rbuf rstart = Inr (rbuf', roff', res')"
  then obtain buf1 off1 buf2 off2 buf3 off3 buf4 fl x where
    w1: "UInt8_writeInto (res_code res) rbuf (rstart + 1) = Inr (buf1, off1)" and
    w2: "Tracing_writeInto (res_tracing res) buf1 off1 = Inr (buf2, off2)" and
    w4: "header1_writeInto (res_headers res) buf2 off2 = Inr (buf3, off3)" and
    w5: "argsrw_writeInto hasCont (res_flags res) (res_csum res) (res_args res) buf3 off3
           = Inr (buf4, roff', fl)" and
    w6: "UInt8_writeInto fl buf4 rstart = Inr (rbuf', x)" and
    r: "res' = res\<lparr>res_flags := fl\<rparr>"
    by (auto simp: writeCallResInto_def Let_def bind_Inr)
  note f1 = write_frameD [OF write_frame_UInt8 w1]
  note f2 = write_frameD [OF write_frame_Tracing w2]
  note f4 = write_frameD [OF write_frame_header1 w4]
  note f5 = argsrw_writeInto_frame [OF w5]
  have t1: "take (rstart + 1) buf1 = take (rstart + 1) rbuf" using f1 by simp
  have t2: "take (rstart + 1) buf2 = take (rstart + 1) rbuf"
    using take_eq_le [OF f2(3), of "rstart + 1"] f1 t1 by simp
  have t3: "take (rstart + 1) buf3 = take (rstart + 1) rbuf"
    using take_eq_le [OF f4(3), of "rstart + 1"] f1 f2 t2 by simp
  have t4: "take (rstart + 1) buf4 = take (rstart + 1) rbuf"
    using take_eq_le [OF f5(3), of "rstart + 1"] f1 f2 f4 t3 by simp
  have n: "buf1 ! rstart = rbuf ! rstart" "buf2 ! rstart = rbuf ! rstart"
    "buf3 ! rstart = rbuf ! rstart" "buf4 ! rstart = rbuf ! rstart"
    using take_eq_nth [OF t1, of rstart] take_eq_nth [OF t2, of rstart]
      take_eq_nth [OF t3, of rstart] take_eq_nth [OF t4, of rstart] by simp_all
  have u: "rbuf' = buf4[rstart := fl]" "rstart < length buf4"
    using w6 by (auto simp: UInt8_writeInto_def split: if_splits)
  have l: "rstart < length rbuf" using u(2) f1(2) f2(2) f4(2) f5(2) by simp
  have fl: "res_flags res' = fl" using r by simp
  show "\<exists>buf1 off1 buf2 off2 buf3 off3 buf4.
          UInt8_writeInto (res_code res) rbuf (rstart + 1) = Inr (buf1, off1)
          \<and> Tracing_writeInto (res_tracing res) buf1 off1 = Inr (buf2, off2)
          \<and> header1_writeInto (res_headers res) buf2 off2 = Inr (buf3, off3)
          \<and> argsrw_writeInto hasCont (res_flags res) (res_csum res) (res_args res) buf3 off3
              = Inr (buf4, roff', res_flags res')
          \<and> rstart < length rbuf
          \<and> buf1 ! rstart = rbuf ! rstart \<and> buf2 ! rstart = rbuf ! rstart
          \<and> buf3 ! rstart = rbuf ! rstart \<and> buf4 ! rstart = rbuf ! rstart
          \<and> rbuf' = buf4[rstart := res_flags res']"
    using w1 w2 w4 w5 l n u(1) unfolding fl by blast
  show "rbuf' ! rstart = res_flags res'" using u fl by simp
  show "res' = res\<lparr>res_flags := if hasCont then res_flags res OR CallFlags_Fragment
                                    else res_flags res\<rparr>"
    using r f5(4) by (simp add: written_flags_def)
qed


lemma length_error_response_bytes: "length (res_body_bytes error_response) = 38"
  using callResLength_bytes [OF wf_error_response] callResLength_error by simp

lemma error_response_flags: "res_flags error_response = 0"
  by (simp add: error_response_def)

lemma write_error_response:
  "writeCallResInto hasCont error_response (replicate 39 0) 0 =
     Inr (overwrite (replicate 39 0) 0 (written_flags hasCont 0 # res_body_bytes error_response), 39,
          error_response\<lparr>res_flags := written_flags hasCont 0\<rparr>)"
  using writeCallResInto_bytes [OF wf_error_response, of 0 "replicate 39 0" hasCont]
  by (simp only: length_error_response_bytes error_response_flags length_replicate) simp

theorem deferred_flags_write_witness:
  "(\<exists>buf'. writeCallReqInto True minimal_request (replicate 48 0) 0
             = Inr (buf', 48, minimal_request\<lparr>req_flags := 1\<rparr>)
          \<and> buf' ! 0 = 1)
   \<and> (\<exists>buf'. writeCallResInto True error_response (replicate 39 0) 0
             = Inr (buf', 39, error_response\<lparr>res_flags := 1\<rparr>)
          \<and> buf' ! 0 = 1)"
proof -
  have f: "written_flags True 0 = 1" by (simp add: written_flags_def CallFlags_Fragment_def)
  let ?b = "overwrite (replicate 48 0) 0 (1 # req_body_bytes minimal_request)"
  let ?c = "overwrite (replicate 39 0) 0 (1 # res_body_bytes error_response)"
  have w: "writeCallReqInto True minimal_request (replicate 48 0) 0
      = Inr (?b, 48, minimal_request\<lparr>req_flags := 1\<rparr>)"
    using write_minimal_request [of True] unfolding f .
  have v: "writeCallResInto True error_response (replicate 39 0) 0
      = Inr (?c, 39, error_response\<lparr>res_flags := 1\<rparr>)"
    using write_error_response [of True] unfolding f .
  from deferred_flags_write [of True minimal_request "replicate 48 0" 0 ?b 48
      "minimal_request\<lparr>req_flags := 1\<rparr>" error_response "replicate 39 0" 0 ?c 39
      "error_response\<lparr>res_flags := 1\<rparr>"] w v
  have "?b ! 0 = 1" "?c ! 0 = 1" by simp_all
  with w v show ?thesis by blast
qed

section \<open>Properties of the lazy accessors\<close>

lemma same_frame_refl: "same_frame f f"
  by (simp add: same_frame_def)

lemma same_frame_trans: "same_frame f g \<Longrightarrow> same_frame g h \<Longrightarrow> same_frame f h"
  by (simp add: same_frame_def)

lemma readUInt8_Some:
  "readUInt8 f off = Some (v, g) \<longleftrightarrow>
     off < length (buffer f) \<and> v = unat (buffer f ! off) \<and> g = f\<lparr>nreads := nreads f + 1\<rparr>"
  by (auto simp: readUInt8_def)

lemma readUInt8_None: "readUInt8 f off = None \<longleftrightarrow> length (buffer f) < off + 1"
  by (auto simp: readUInt8_def)

lemma readUInt16BE_Some:
  "readUInt16BE f off = Some (v, g) \<longleftrightarrow>
     off + 2 \<le> length (buffer f) \<and> v = u16be_at (buffer f) off \<and> g = f\<lparr>nreads := nreads f + 1\<rparr>"
  by (auto simp: readUInt16BE_def u16be_at_def)

lemma readUInt16BE_None: "readUInt16BE f off = None \<longleftrightarrow> length (buffer f) < off + 2"
  by (auto simp: readUInt16BE_def)

lemma keyValue_or_read_Some:
  "keyValue_or_read kv f off = Some (v, g) \<Longrightarrow>
     same_frame f g \<and> (kv = None \<longrightarrow> off + 2 \<le> length (buffer f) \<and> v = u16be_at (buffer f) off)
     \<and> (\<forall>k. kv = Some k \<longrightarrow> off + 2 \<le> length (buffer f) \<longrightarrow> v = u16be_at (buffer f) off \<longrightarrow> True)"
  by (auto simp: keyValue_or_read_def readUInt16BE_Some same_frame_def split: option.splits nat.splits)

lemma matchKeys_Some:
  assumes "matchKeys f off kl cn rd = Some (cn', rd', g)"
  shows "same_frame f g"
    and "kl = 2 \<and> (cn = 0 \<or> rd = 0) \<longrightarrow> off + 2 \<le> length (buffer f)"
    and "cn' = (if cn = 0 \<and> kl = 2 \<and> u16be_at (buffer f) off = CN_VALUE then off + 2 else cn)"
    and "rd' = (if rd = 0 \<and> kl = 2 \<and> u16be_at (buffer f) off = RD_VALUE then off + 2 else rd)"
  using assms
  by (auto simp: matchKeys_def bind_eq_Some_conv keyValue_or_read_def readUInt16BE_Some
      same_frame_def split: if_splits option.splits nat.splits)

lemma matchKeys_None:
  "matchKeys f off kl cn rd = None \<longleftrightarrow> kl = 2 \<and> (cn = 0 \<or> rd = 0) \<and> length (buffer f) < off + 2"
  by (auto simp: matchKeys_def bind_eq_None_conv keyValue_or_read_def readUInt16BE_None
      readUInt16BE_Some readUInt16BE_def split: if_splits option.splits nat.splits)

lemma same_frame_reads [simp]: "same_frame f (f\<lparr>nreads := nreads f + k\<rparr>)"
  by (simp add: same_frame_def)

lemma scanHeader_unfold:
  "scanHeader f off cn rd =
     (if fsize f < off + 1 then Some (None, f)
      else if length (buffer f) < off + 1 then None
      else if fsize f < unat (buffer f ! off) + (off + 1)
        then Some (None, f\<lparr>nreads := nreads f + 1\<rparr>)
      else
        (case matchKeys (f\<lparr>nreads := nreads f + 1\<rparr>) (off + 1) (unat (buffer f ! off)) cn rd of
           None \<Rightarrow> None
         | Some (cn1, rd1, f2) \<Rightarrow>
             if fsize f2 < off + 1 + unat (buffer f ! off) + 1 then Some (None, f2)
             else if length (buffer f2) < off + 1 + unat (buffer f ! off) + 1 then None
             else if fsize f2 < unat (buffer f2 ! (off + 1 + unat (buffer f ! off)))
                                 + (off + 1 + unat (buffer f ! off) + 1)
               then Some (None, f2\<lparr>nreads := nreads f2 + 1\<rparr>)
             else Some (Some (off + 1 + unat (buffer f ! off) + 1
                               + unat (buffer f2 ! (off + 1 + unat (buffer f ! off))), cn1, rd1),
                        f2\<lparr>nreads := nreads f2 + 1\<rparr>)))"
  by (simp add: scanHeader_def readUInt8_def Let_def split: option.splits)

lemma scanHeader_cases:
  fixes f off cn rd
  defines "kl \<equiv> unat (buffer f ! off)"
  defines "vl \<equiv> unat (buffer f ! (off + 1 + kl))"
  defines "cn1 \<equiv> (if cn = 0 \<and> kl = 2 \<and> u16be_at (buffer f) (off + 1) = CN_VALUE then off + 1 + 2 else cn)"
  defines "rd1 \<equiv> (if rd = 0 \<and> kl = 2 \<and> u16be_at (buffer f) (off + 1) = RD_VALUE then off + 1 + 2 else rd)"
  shows "(scanHeader f off cn rd = None \<and> header_pure (buffer f) (fsize f) off cn rd = None)
       \<or> (\<exists>g. scanHeader f off cn rd = Some (None, g) \<and> same_frame f g
              \<and> header_pure (buffer f) (fsize f) off cn rd = Some None)
       \<or> (\<exists>g. scanHeader f off cn rd = Some (Some (off + 1 + kl + 1 + vl, cn1, rd1), g) \<and> same_frame f g
              \<and> header_pure (buffer f) (fsize f) off cn rd = Some (Some (off + 1 + kl + 1 + vl, cn1, rd1))
              \<and> off + 1 + kl + 1 + vl \<le> fsize f \<and> off + 1 + kl + 1 \<le> length (buffer f)
              \<and> (kl = 2 \<and> (cn = 0 \<or> rd = 0) \<longrightarrow> off + 3 \<le> length (buffer f)))"
proof -
  let ?f1 = "f\<lparr>nreads := nreads f + 1\<rparr>"
  consider (a) "fsize f < off + 1"
    | (b) "\<not> fsize f < off + 1" "length (buffer f) < off + 1"
    | (c) "\<not> fsize f < off + 1" "\<not> length (buffer f) < off + 1" "fsize f < kl + (off + 1)"
    | (d) "\<not> fsize f < off + 1" "\<not> length (buffer f) < off + 1" "\<not> fsize f < kl + (off + 1)"
    by blast
  then show ?thesis
  proof cases
    case a
    then show ?thesis
      by (simp add: scanHeader_unfold header_pure_def same_frame_refl)
  next
    case b
    then show ?thesis
      by (simp add: scanHeader_unfold header_pure_def)
  next
    case c
    then show ?thesis
      unfolding kl_def by (simp add: scanHeader_unfold header_pure_def same_frame_def)
  next
    case d
    show ?thesis
    proof (cases "matchKeys ?f1 (off + 1) kl cn rd")
      case None
      then have k: "kl = 2 \<and> (cn = 0 \<or> rd = 0) \<and> length (buffer f) < off + 3"
        by (auto simp: matchKeys_None)
      have "scanHeader f off cn rd = None"
        using d None unfolding kl_def by (simp add: scanHeader_unfold)
      moreover have "header_pure (buffer f) (fsize f) off cn rd = None"
        using d k unfolding kl_def by (simp add: header_pure_def)
      ultimately show ?thesis by simp
    next
      case (Some t)
      obtain c1 r1 f2 where t: "t = (c1, r1, f2)" by (cases t)
      note mk = matchKeys_Some [OF Some [unfolded t]]
      have b2: "buffer f2 = buffer f" "fsize f2 = fsize f" "cache f2 = cache f" "nreads f \<le> nreads f2"
        using mk(1) by (simp_all add: same_frame_def)
      have k: "\<not> (kl = 2 \<and> (cn = 0 \<or> rd = 0) \<and> length (buffer f) < off + 3)"
        using mk(2) by auto
      have cs: "c1 = cn1" "r1 = rd1"
        using mk(3,4) by (simp_all add: cn1_def rd1_def)
      have sf: "same_frame f f2" "same_frame f (f2\<lparr>nreads := nreads f2 + 1\<rparr>)"
        using b2 by (simp_all add: same_frame_def)
      have m: "matchKeys ?f1 (off + 1) (unat (buffer f ! off)) cn rd = Some (cn1, rd1, f2)"
        using Some t cs by (simp add: kl_def)
      consider (e) "fsize f < off + 1 + kl + 1"
        | (f) "\<not> fsize f < off + 1 + kl + 1" "length (buffer f) < off + 1 + kl + 1"
        | (g) "\<not> fsize f < off + 1 + kl + 1" "\<not> length (buffer f) < off + 1 + kl + 1"
              "fsize f < vl + (off + 1 + kl + 1)"
        | (h) "\<not> fsize f < off + 1 + kl + 1" "\<not> length (buffer f) < off + 1 + kl + 1"
              "\<not> fsize f < vl + (off + 1 + kl + 1)"
        by blast
      then show ?thesis
      proof cases
        case e
        have "scanHeader f off cn rd = Some (None, f2)"
          using d e m b2 unfolding kl_def by (simp add: scanHeader_unfold)
        moreover have "header_pure (buffer f) (fsize f) off cn rd = Some None"
          using d e k unfolding kl_def by (simp add: header_pure_def)
        ultimately show ?thesis using sf by blast
      next
        case f
        have "scanHeader f off cn rd = None"
          using d f m b2 unfolding kl_def by (simp add: scanHeader_unfold)
        moreover have "header_pure (buffer f) (fsize f) off cn rd = None"
          using d f k unfolding kl_def by (simp add: header_pure_def)
        ultimately show ?thesis by simp
      next
        case g
        have "scanHeader f off cn rd = Some (None, f2\<lparr>nreads := nreads f2 + 1\<rparr>)"
          using d g m b2 unfolding kl_def vl_def by (simp add: scanHeader_unfold)
        moreover have "header_pure (buffer f) (fsize f) off cn rd = Some None"
          using d g k unfolding kl_def vl_def by (simp add: header_pure_def)
        ultimately show ?thesis using sf by blast
      next
        case h
        have "scanHeader f off cn rd
            = Some (Some (off + 1 + kl + 1 + vl, cn1, rd1), f2\<lparr>nreads := nreads f2 + 1\<rparr>)"
          using d h m b2 unfolding kl_def vl_def by (simp add: scanHeader_unfold)
        moreover have "header_pure (buffer f) (fsize f) off cn rd
            = Some (Some (off + 1 + kl + 1 + vl, cn1, rd1))"
          using d h k unfolding kl_def vl_def cn1_def rd1_def by (simp add: header_pure_def)
        moreover have "off + 1 + kl + 1 + vl \<le> fsize f" "off + 1 + kl + 1 \<le> length (buffer f)"
          using h by simp_all
        moreover have "kl = 2 \<and> (cn = 0 \<or> rd = 0) \<longrightarrow> off + 3 \<le> length (buffer f)"
          using k by auto
        ultimately show ?thesis using sf by blast
      qed
    qed
  qed
qed

lemma scanHeader_Some:
  assumes "scanHeader f off cn rd = Some (r, g)"
  shows "header_pure (buffer f) (fsize f) off cn rd = Some r" and "same_frame f g"
  using scanHeader_cases [of f off cn rd] assms by auto

lemma scanHeader_None:
  "scanHeader f off cn rd = None \<longleftrightarrow> header_pure (buffer f) (fsize f) off cn rd = None"
  using scanHeader_cases [of f off cn rd] by auto

lemma scanLoop_Some:
  "scanLoop n f off cn rd = Some (r, g) \<Longrightarrow>
   scan_pure (buffer f) (fsize f) n off cn rd = Some r \<and> same_frame f g"
proof (induction n arbitrary: f off cn rd)
  case 0
  then show ?case by (simp add: same_frame_def)
next
  case (Suc n)
  from Suc.prems obtain r1 f1 where h: "scanHeader f off cn rd = Some (r1, f1)"
    and rest: "(case r1 of None \<Rightarrow> Some (None, f1)
                | Some (off', cn1, rd1) \<Rightarrow> scanLoop n f1 off' cn1 rd1) = Some (r, g)"
    by (auto simp: bind_eq_Some_conv)
  note sh = scanHeader_Some [OF h]
  show ?case
  proof (cases r1)
    case None
    with rest sh show ?thesis by simp
  next
    case (Some t)
    obtain off' cn1 rd1 where t: "t = (off', cn1, rd1)" by (cases t)
    from rest Some t have "scanLoop n f1 off' cn1 rd1 = Some (r, g)" by simp
    from Suc.IH [OF this] sh Some t show ?thesis
      by (auto simp: same_frame_def)
  qed
qed

lemma scanLoop_None:
  "scanLoop n f off cn rd = None \<longleftrightarrow> scan_pure (buffer f) (fsize f) n off cn rd = None"
proof (induction n arbitrary: f off cn rd)
  case 0
  show ?case by simp
next
  case (Suc n)
  show ?case
  proof (cases "scanHeader f off cn rd")
    case None
    then show ?thesis using scanHeader_None [of f off cn rd] by simp
  next
    case (Some p)
    obtain r1 f1 where p: "p = (r1, f1)" by (cases p)
    note sh = scanHeader_Some [OF Some [unfolded p]]
    show ?thesis
    proof (cases r1)
      case None
      with Some p sh show ?thesis by simp
    next
      case (Some t)
      obtain off' cn1 rd1 where t: "t = (off', cn1, rd1)" by (cases t)
      have "buffer f1 = buffer f" "fsize f1 = fsize f" using sh(2) by (simp_all add: same_frame_def)
      with Suc.IH [of f1 off' cn1 rd1] \<open>scanHeader f off cn rd = Some p\<close> p Some t sh(1)
      show ?thesis by simp
    qed
  qed
qed

lemma scanLoop_complete:
  assumes "scan_pure (buffer f) (fsize f) n off cn rd = Some r"
  shows "\<exists>g. scanLoop n f off cn rd = Some (r, g) \<and> same_frame f g"
proof (cases "scanLoop n f off cn rd")
  case None
  with assms scanLoop_None [of n f off cn rd] show ?thesis by simp
next
  case (Some p)
  obtain r' g where p: "p = (r', g)" by (cases p)
  from scanLoop_Some [OF Some [unfolded p]] assms Some p show ?thesis by simp
qed

lemma header_pure_bounds:
  assumes "header_pure buf sz off cn rd = Some (Some (off', cn', rd'))"
  shows "off < off'" "off' \<le> sz"
    "cn' = cn \<or> (cn = 0 \<and> 0 < cn' \<and> cn' < sz)"
    "rd' = rd \<or> (rd = 0 \<and> 0 < rd' \<and> rd' < sz)"
proof -
  from assms have
    o: "off' = off + 1 + unat (buf ! off) + 1 + unat (buf ! (off + 1 + unat (buf ! off)))" and
    c: "cn' = (if cn = 0 \<and> unat (buf ! off) = 2 \<and> u16be_at buf (off + 1) = CN_VALUE
              then off + 1 + 2 else cn)" and
    r: "rd' = (if rd = 0 \<and> unat (buf ! off) = 2 \<and> u16be_at buf (off + 1) = RD_VALUE
              then off + 1 + 2 else rd)" and
    s: "\<not> sz < unat (buf ! (off + 1 + unat (buf ! off))) + (off + 1 + unat (buf ! off) + 1)"
    by (simp_all add: header_pure_def split: if_splits)
  show "off < off'" using o by simp
  show "off' \<le> sz" using o s by simp
  show "cn' = cn \<or> (cn = 0 \<and> 0 < cn' \<and> cn' < sz)" using c s by (auto split: if_splits)
  show "rd' = rd \<or> (rd = 0 \<and> 0 < rd' \<and> rd' < sz)" using r s by (auto split: if_splits)
qed

lemma scan_pure_bounds:
  "scan_pure buf sz n off cn rd = Some (Some (off', cn', rd')) \<Longrightarrow>
   off \<le> off' \<and> (off \<le> sz \<longrightarrow> off' \<le> sz)
   \<and> (cn' = cn \<or> (cn = 0 \<and> 0 < cn' \<and> cn' < sz))
   \<and> (rd' = rd \<or> (rd = 0 \<and> 0 < rd' \<and> rd' < sz))"
proof (induction n arbitrary: off cn rd)
  case 0
  then show ?case by simp
next
  case (Suc n)
  from Suc.prems obtain o1 c1 r1 where
    h: "header_pure buf sz off cn rd = Some (Some (o1, c1, r1))" and
    t: "scan_pure buf sz n o1 c1 r1 = Some (Some (off', cn', rd'))"
    by (auto split: option.splits)
  note hb = header_pure_bounds [OF h] and ih = Suc.IH [OF t]
  show ?case using hb ih by auto
qed

lemma findHeaderStartOffset_spec:
  "findHeaderStartOffset ov f =
     map_option (\<lambda>h. (h, hso_frame ov f)) (hso_val ov (buffer f) (fsize f) (cache f))"
  by (auto simp: findHeaderStartOffset_def hso_val_def hso_frame_def hso_cache_def truthy_def
      readUInt8_def Let_def split: option.splits nat.splits)

lemma hso_frame_same [simp]:
  "buffer (hso_frame ov f) = buffer f" "fsize (hso_frame ov f) = fsize f"
  "nreads f \<le> nreads (hso_frame ov f)"
  "cache (hso_frame ov f) = hso_cache ov (buffer f) (fsize f) (cache f)"
  by (simp_all add: hso_frame_def hso_cache_def)

lemma hso_frame_le_Suc [simp]: "nreads f \<le> Suc (nreads (hso_frame ov f))"
  by (simp add: hso_frame_def)

lemma hso_cache_fields [simp]:
  "ttlValue (hso_cache ov buf sz c) = ttlValue c"
  "tracingValue (hso_cache ov buf sz c) = tracingValue c"
  "serviceStr (hso_cache ov buf sz c) = serviceStr c"
  "callerNameStr (hso_cache ov buf sz c) = callerNameStr c"
  "routingDelegateStr (hso_cache ov buf sz c) = routingDelegateStr c"
  "arg1Str (hso_cache ov buf sz c) = arg1Str c"
  "csumStartOffset (hso_cache ov buf sz c) = csumStartOffset c"
  "cnValueOffset (hso_cache ov buf sz c) = cnValueOffset c"
  "rdValueOffset (hso_cache ov buf sz c) = rdValueOffset c"
  "lastError (hso_cache ov buf sz c) = lastError c"
  by (simp_all add: hso_cache_def)

lemma hso_val_pos:
  "hso_val ov buf sz c = Some h \<Longrightarrow> h \<noteq> 0 \<Longrightarrow> headerStartOffset (hso_cache ov buf sz c) = Some h"
  by (auto simp: hso_val_def hso_cache_def truthy_def split: if_splits option.splits)

lemma hso_val_zero:
  "hso_val ov buf sz c = Some 0 \<Longrightarrow> hso_cache ov buf sz c = c \<and> \<not> truthy (headerStartOffset c)"
  by (auto simp: hso_val_def hso_cache_def truthy_def split: if_splits option.splits)


lemma readUInt8String_spec:
  "readUInt8String f off =
     map_option (\<lambda>v. (v, f\<lparr>nreads := nreads f + (if fsize f < off + 1 then 0 else if v = None then 1 else 2)\<rparr>))
       (str8_val (buffer f) (fsize f) off)"
  by (simp add: readUInt8String_def str8_val_def readUInt8_def fastBufferToString_def Let_def)

lemma scanAndSkipHeaders_None:
  assumes "scan_val ov (buffer f) (fsize f) (cache f) = None"
  shows "scanAndSkipHeaders ov f = None"
proof (cases "hso_val ov (buffer f) (fsize f) (cache f)")
  case None
  then show ?thesis by (simp add: scanAndSkipHeaders_def findHeaderStartOffset_spec)
next
  case (Some h)
  let ?f1 = "hso_frame ov f"
  show ?thesis
  proof (cases "h = 0 \<or> fsize f < h + 1")
    case True
    with assms Some show ?thesis by (auto simp: scan_val_def split: if_splits)
  next
    case c: False
    show ?thesis
    proof (cases "length (buffer f) < h + 1")
      case True
      with c Some show ?thesis
        by (simp add: scanAndSkipHeaders_def findHeaderStartOffset_spec readUInt8_def)
    next
      case l: False
      let ?f2 = "?f1\<lparr>nreads := nreads ?f1 + 1\<rparr>"
      from assms Some c l have "scan_pure (buffer f) (fsize f) (unat (buffer f ! h)) (h + 1) 0 0 = None"
        by (simp add: scan_val_def)
      then have "scanLoop (unat (buffer f ! h)) ?f2 (h + 1) 0 0 = None"
        using scanLoop_None [of "unat (buffer f ! h)" ?f2 "h + 1" 0 0] by simp
      with c l Some show ?thesis
        by (simp add: scanAndSkipHeaders_def findHeaderStartOffset_spec readUInt8_def)
    qed
  qed
qed

lemma scanAndSkipHeaders_Some:
  assumes "scan_val ov (buffer f) (fsize f) (cache f) = Some r"
  shows "\<exists>g. scanAndSkipHeaders ov f = Some (r \<noteq> None, g) \<and> buffer g = buffer f
            \<and> fsize g = fsize f \<and> nreads f \<le> nreads g
            \<and> cache g = scan_cache ov (buffer f) (fsize f) (cache f) r"
proof -
  from assms obtain h where Some: "hso_val ov (buffer f) (fsize f) (cache f) = Some h"
    by (auto simp: scan_val_def split: option.splits)
  let ?f1 = "hso_frame ov f"
  show ?thesis
  proof (cases "h = 0 \<or> fsize f < h + 1")
    case True
    with assms Some have r: "r = None" by (auto simp: scan_val_def split: if_splits)
    from True Some have "scanAndSkipHeaders ov f = Some (False, ?f1)"
      by (auto simp: scanAndSkipHeaders_def findHeaderStartOffset_spec)
    then show ?thesis using r by (simp add: scan_cache_def)
  next
    case c: False
    with assms Some have l: "\<not> length (buffer f) < h + 1"
      by (auto simp: scan_val_def split: if_splits)
    let ?f2 = "?f1\<lparr>nreads := nreads ?f1 + 1\<rparr>"
    from assms Some c l have "scan_pure (buffer ?f2) (fsize ?f2) (unat (buffer f ! h)) (h + 1) 0 0 = Some r"
      by (simp add: scan_val_def)
    from scanLoop_complete [OF this] obtain g where
      g: "scanLoop (unat (buffer f ! h)) ?f2 (h + 1) 0 0 = Some (r, g)" and sf: "same_frame ?f2 g"
      by blast
    have "nreads ?f1 \<le> nreads g" using sf by (simp add: same_frame_def)
    then have n: "nreads f \<le> nreads g" by (rule order_trans [OF hso_frame_same(3)])
    have b: "buffer g = buffer f" "fsize g = fsize f"
      "cache g = hso_cache ov (buffer f) (fsize f) (cache f)" "nreads f \<le> nreads g"
      using sf n by (simp_all add: same_frame_def)
    show ?thesis
    proof (cases r)
      case None
      with c l Some g have "scanAndSkipHeaders ov f = Some (False, g)"
        by (simp add: scanAndSkipHeaders_def findHeaderStartOffset_spec readUInt8_def)
      with None b show ?thesis by (simp add: scan_cache_def)
    next
      case (Some t)
      obtain off cn rd where t: "t = (off, cn, rd)" by (cases t)
      from c l \<open>hso_val ov (buffer f) (fsize f) (cache f) = Some h\<close> g Some t
      have "scanAndSkipHeaders ov f = Some (True, g\<lparr>cache := (cache g)\<lparr>cnValueOffset := Some cn,
          rdValueOffset := Some rd, csumStartOffset := Some off\<rparr>\<rparr>)"
        by (simp add: scanAndSkipHeaders_def findHeaderStartOffset_spec readUInt8_def)
      with Some t b show ?thesis by (simp add: scan_cache_def)
    qed
  qed
qed

lemma linksI:
  assumes n: "\<And>f. R f = None \<Longrightarrow> P (buffer f) (fsize f) (cache f) = None"
    and s: "\<And>f v g. R f = Some (v, g) \<Longrightarrow>
              P (buffer f) (fsize f) (cache f) = Some (v, cache g) \<and> after f (cache g) g"
  shows "links R P"
  unfolding links_def
proof
  fix f
  show "case P (buffer f) (fsize f) (cache f) of
            None \<Rightarrow> R f = None
          | Some (v, c) \<Rightarrow> (\<exists>g. R f = Some (v, g) \<and> after f c g)"
  proof (cases "R f")
    case None
    from n [OF None] None show ?thesis by simp
  next
    case (Some p)
    obtain v g where p: "p = (v, g)" by (cases p)
    from s [OF Some [unfolded p]] Some p show ?thesis by auto
  qed
qed

lemma links_Some:
  assumes "links R P" "P (buffer f) (fsize f) (cache f) = Some (v, c)"
  shows "\<exists>g. R f = Some (v, g) \<and> after f c g"
  using assms(1) [unfolded links_def, rule_format, of f] assms(2) by simp

lemma links_None:
  assumes "links R P" "P (buffer f) (fsize f) (cache f) = None"
  shows "R f = None"
  using assms(1) [unfolded links_def, rule_format, of f] assms(2) by simp

lemma links_result:
  assumes "links R P" "R f = Some (v, g)"
  shows "P (buffer f) (fsize f) (cache f) = Some (v, cache g)" and "after f (cache g) g"
proof -
  have "P (buffer f) (fsize f) (cache f) = Some (v, cache g) \<and> after f (cache g) g"
  proof (cases "P (buffer f) (fsize f) (cache f)")
    case None
    from links_None [OF assms(1) None] assms(2) show ?thesis by simp
  next
    case (Some p)
    obtain v' c where p: "p = (v', c)" by (cases p)
    from links_Some [OF assms(1) Some [unfolded p]] assms(2) Some p show ?thesis
      by (auto simp: after_def)
  qed
  then show "P (buffer f) (fsize f) (cache f) = Some (v, cache g)" and "after f (cache g) g"
    by simp_all
qed

lemma links_throw:
  assumes "links R P" "R f = None"
  shows "P (buffer f) (fsize f) (cache f) = None"
proof (cases "P (buffer f) (fsize f) (cache f)")
  case (Some p)
  obtain v c where p: "p = (v, c)" by (cases p)
  from links_Some [OF assms(1) Some [unfolded p]] assms(2) show ?thesis by simp
qed simp

lemma readUInt32BE_eq:
  "readUInt32BE f off =
     (if off + 4 \<le> length (buffer f) then Some (u32be_at (buffer f) off, f\<lparr>nreads := nreads f + 1\<rparr>)
      else None)"
  by (simp add: readUInt32BE_def u32be_at_def)

lemma readUInt16BE_eq:
  "readUInt16BE f off =
     (if off + 2 \<le> length (buffer f) then Some (u16be_at (buffer f) off, f\<lparr>nreads := nreads f + 1\<rparr>)
      else None)"
  by (simp add: readUInt16BE_def u16be_at_def)

lemma links_readTTL: "links (readTTL ov) (ttl_out ov)"
proof (rule linksI)
  fix f
  assume "readTTL ov f = None"
  then show "ttl_out ov (buffer f) (fsize f) (cache f) = None"
    by (auto simp: readTTL_def readUInt32BE_eq ttl_out_def Let_def split: option.splits if_splits)
next
  fix f v g
  assume "readTTL ov f = Some (v, g)"
  then show "ttl_out ov (buffer f) (fsize f) (cache f) = Some (v, cache g) \<and> after f (cache g) g"
    by (auto simp: readTTL_def readUInt32BE_eq ttl_out_def after_def Let_def
        split: option.splits if_splits)
qed

lemma readTracingValue_eq:
  "readTracingValue ov f =
     (case tracing_out ov (buffer f) (fsize f) (cache f) of
        None \<Rightarrow> None
      | Some (v, c) \<Rightarrow>
          Some (v, f\<lparr>cache := c, nreads := nreads f +
            (if tracingValue (cache f) = None \<and> \<not> fsize f < tracingOffset ov + 25 then 7 else 0)\<rparr>))"
proof (cases "tracingValue (cache f)")
  case (Some v)
  then show ?thesis by (simp add: readTracingValue_def tracing_out_def)
next
  case None
  show ?thesis
  proof (cases "fsize f < tracingOffset ov + 25")
    case True
    with None show ?thesis by (simp add: readTracingValue_def tracing_out_def)
  next
    case s: False
    show ?thesis
    proof (cases "length (buffer f) < tracingOffset ov + 25")
      case True
      with None s show ?thesis
        by (auto simp: readTracingValue_def tracing_out_def readUInt32BE_eq readUInt8_def Let_def)
    next
      case False
      with None s show ?thesis
        by (simp add: readTracingValue_def tracing_out_def readUInt32BE_eq readUInt8_def Let_def
            tracing_at_def)
    qed
  qed
qed

lemma links_readTracingValue: "links (readTracingValue ov) (tracing_out ov)"
  by (rule linksI) (auto simp: readTracingValue_eq after_def split: option.splits)

lemma links_readServiceStr: "links (readServiceStr ov) (service_out ov)"
proof (rule linksI)
  fix f
  assume a: "readServiceStr ov f = None"
  show "service_out ov (buffer f) (fsize f) (cache f) = None"
  proof (cases "serviceStr (cache f)")
    case (Some s)
    with a show ?thesis by (simp add: readServiceStr_def)
  next
    case None
    show ?thesis
    proof (cases "hso_val ov (buffer f) (fsize f) (cache f)")
      case n: None
      with None show ?thesis by (simp add: service_out_def)
    next
      case (Some h)
      with a None show ?thesis
        by (simp add: readServiceStr_def findHeaderStartOffset_spec fastBufferToString_def
            split: if_splits)
    qed
  qed
next
  fix f v g
  assume a: "readServiceStr ov f = Some (v, g)"
  show "service_out ov (buffer f) (fsize f) (cache f) = Some (v, cache g) \<and> after f (cache g) g"
  proof (cases "serviceStr (cache f)")
    case (Some s)
    with a have "v = Some s" "g = f" by (simp_all add: readServiceStr_def)
    then show ?thesis using Some by (simp add: service_out_def after_def)
  next
    case None
    from a None obtain h where h: "hso_val ov (buffer f) (fsize f) (cache f) = Some h"
      by (auto simp: readServiceStr_def findHeaderStartOffset_spec bind_eq_Some_conv)
    show ?thesis
    proof (cases "h = 0 \<or> fsize f < h")
      case True
      with a None h have "v = None" "g = hso_frame ov f"
        by (auto simp: readServiceStr_def findHeaderStartOffset_spec)
      then show ?thesis using None h True by (simp add: service_out_def after_def)
    next
      case False
      let ?s = "utf8_decode (take (h - (serviceOffset ov + 1)) (drop (serviceOffset ov + 1) (buffer f)))"
      from a None h False have "v = Some ?s"
        "g = (hso_frame ov f)\<lparr>nreads := nreads (hso_frame ov f) + 1,
               cache := (cache (hso_frame ov f))\<lparr>serviceStr := Some ?s\<rparr>\<rparr>"
        by (auto simp: readServiceStr_def findHeaderStartOffset_spec fastBufferToString_def)
      then show ?thesis using None h False by (simp add: service_out_def after_def)
    qed
  qed
qed

lemma links_scan:
  "links (\<lambda>f. if need then scanAndSkipHeaders ov f else Some (True, f)) (scan_if need ov)"
  unfolding links_def
proof
  fix f
  show "case scan_if need ov (buffer f) (fsize f) (cache f) of
          None \<Rightarrow> (if need then scanAndSkipHeaders ov f else Some (True, f)) = None
        | Some (v, c) \<Rightarrow>
            (\<exists>g. (if need then scanAndSkipHeaders ov f else Some (True, f)) = Some (v, g) \<and> after f c g)"
  proof (cases need)
    case False
    then show ?thesis by (simp add: scan_if_def after_def)
  next
    case True
    show ?thesis
    proof (cases "scan_val ov (buffer f) (fsize f) (cache f)")
      case None
      from scanAndSkipHeaders_None [OF None] None True show ?thesis by (simp add: scan_if_def)
    next
      case (Some r)
      from scanAndSkipHeaders_Some [OF Some] Some True show ?thesis
        by (auto simp: scan_if_def after_def)
    qed
  qed
qed

lemma links_readCallerNameStr: "links (readCallerNameStr ov) (cn_out ov)"
proof (rule linksI)
  fix f :: frame
  fix v :: "jsstring option" and g :: frame
  let ?scan = "if cnValueOffset (cache f) = None then scanAndSkipHeaders ov f else Some (True, f)"
  have both: "(readCallerNameStr ov f = None \<longrightarrow> cn_out ov (buffer f) (fsize f) (cache f) = None)
      \<and> (readCallerNameStr ov f = Some (v, g) \<longrightarrow>
           cn_out ov (buffer f) (fsize f) (cache f) = Some (v, cache g) \<and> after f (cache g) g)"
  proof (cases "callerNameStr (cache f)")
    case (Some s)
    then show ?thesis by (auto simp: readCallerNameStr_def cn_out_def after_def)
  next
    case None
    show ?thesis
    proof (cases ?scan)
      case n: None
      from links_throw [OF links_scan n] n None show ?thesis
        by (simp add: readCallerNameStr_def cn_out_def)
    next
      case (Some p)
      obtain success f1 where p: "p = (success, f1)" by (cases p)
      note sl = links_result [OF links_scan Some [unfolded p]]
      from sl have si: "scan_if (cnValueOffset (cache f) = None) ov (buffer f) (fsize f) (cache f)
            = Some (success, cache f1)"
        and af: "after f (cache f1) f1" by simp_all
      have b: "buffer f1 = buffer f" "fsize f1 = fsize f" "nreads f \<le> nreads f1"
        using af by (simp_all add: after_def)
      show ?thesis
      proof (cases success)
        case False
        with None Some p si af show ?thesis
          by (auto simp: readCallerNameStr_def cn_out_def)
      next
        case True
        show ?thesis
        proof (cases "cnValueOffset (cache f1)")
          case n2: None
          with None Some p si af True show ?thesis
            by (auto simp: readCallerNameStr_def cn_out_def string_at_def)
        next
          case (Some c)
          show ?thesis
          proof (cases c)
            case 0
            with None \<open>?scan = Some p\<close> p si af True Some show ?thesis
              by (auto simp: readCallerNameStr_def cn_out_def string_at_def)
          next
            case (Suc k)
            show ?thesis
            proof (cases "str8_val (buffer f) (fsize f) (Suc k)")
              case n3: None
              with None \<open>?scan = Some p\<close> p si True Some Suc b show ?thesis
                by (auto simp: readCallerNameStr_def cn_out_def string_at_def readUInt8String_spec)
            next
              case s8: (Some str)
              show ?thesis
              proof (cases "falsy_str str")
                case t: True
                with None \<open>?scan = Some p\<close> p si True Some Suc b s8 show ?thesis
                  by (auto simp: readCallerNameStr_def cn_out_def string_at_def readUInt8String_spec
                      after_def)
              next
                case nf: False
                then obtain s where str: "str = Some s" by (cases str) (simp_all add: falsy_str_def)
                with nf None \<open>?scan = Some p\<close> p si True Some Suc b s8 show ?thesis
                  by (auto simp: readCallerNameStr_def cn_out_def string_at_def readUInt8String_spec
                      after_def)
              qed
            qed
          qed
        qed
      qed
    qed
  qed
  {
    assume "readCallerNameStr ov f = None"
    with both show "cn_out ov (buffer f) (fsize f) (cache f) = None" by simp
  }
  {
    assume "readCallerNameStr ov f = Some (v, g)"
    with both show "cn_out ov (buffer f) (fsize f) (cache f) = Some (v, cache g) \<and> after f (cache g) g"
      by simp
  }
qed

lemma links_readRoutingDelegateStr: "links (readRoutingDelegateStr ov) (rd_out ov)"
proof (rule linksI)
  fix f :: frame
  fix v :: "jsstring option" and g :: frame
  let ?scan = "if rdValueOffset (cache f) = None then scanAndSkipHeaders ov f else Some (True, f)"
  have both: "(readRoutingDelegateStr ov f = None \<longrightarrow> rd_out ov (buffer f) (fsize f) (cache f) = None)
      \<and> (readRoutingDelegateStr ov f = Some (v, g) \<longrightarrow>
           rd_out ov (buffer f) (fsize f) (cache f) = Some (v, cache g) \<and> after f (cache g) g)"
  proof (cases "routingDelegateStr (cache f)")
    case (Some s)
    then show ?thesis by (auto simp: readRoutingDelegateStr_def rd_out_def after_def)
  next
    case None
    show ?thesis
    proof (cases ?scan)
      case n: None
      from links_throw [OF links_scan n] n None show ?thesis
        by (simp add: readRoutingDelegateStr_def rd_out_def)
    next
      case (Some p)
      obtain success f1 where p: "p = (success, f1)" by (cases p)
      note sl = links_result [OF links_scan Some [unfolded p]]
      from sl have si: "scan_if (rdValueOffset (cache f) = None) ov (buffer f) (fsize f) (cache f)
            = Some (success, cache f1)"
        and af: "after f (cache f1) f1" by simp_all
      have b: "buffer f1 = buffer f" "fsize f1 = fsize f" "nreads f \<le> nreads f1"
        using af by (simp_all add: after_def)
      show ?thesis
      proof (cases success)
        case False
        with None Some p si af show ?thesis
          by (auto simp: readRoutingDelegateStr_def rd_out_def)
      next
        case True
        show ?thesis
        proof (cases "rdValueOffset (cache f1)")
          case n2: None
          with None Some p si af True show ?thesis
            by (auto simp: readRoutingDelegateStr_def rd_out_def string_at_def)
        next
          case (Some c)
          show ?thesis
          proof (cases c)
            case 0
            with None \<open>?scan = Some p\<close> p si af True Some show ?thesis
              by (auto simp: readRoutingDelegateStr_def rd_out_def string_at_def)
          next
            case (Suc k)
            show ?thesis
            proof (cases "str8_val (buffer f) (fsize f) (Suc k)")
              case n3: None
              with None \<open>?scan = Some p\<close> p si True Some Suc b show ?thesis
                by (auto simp: readRoutingDelegateStr_def rd_out_def string_at_def readUInt8String_spec)
            next
              case s8: (Some str)
              show ?thesis
              proof (cases "falsy_str str")
                case t: True
                with None \<open>?scan = Some p\<close> p si True Some Suc b s8 show ?thesis
                  by (auto simp: readRoutingDelegateStr_def rd_out_def string_at_def readUInt8String_spec
                      after_def)
              next
                case nf: False
                then obtain s where str: "str = Some s" by (cases str) (simp_all add: falsy_str_def)
                with nf None \<open>?scan = Some p\<close> p si True Some Suc b s8 show ?thesis
                  by (auto simp: readRoutingDelegateStr_def rd_out_def string_at_def readUInt8String_spec
                      after_def)
              qed
            qed
          qed
        qed
      qed
    qed
  qed
  {
    assume "readRoutingDelegateStr ov f = None"
    with both show "rd_out ov (buffer f) (fsize f) (cache f) = None" by simp
  }
  {
    assume "readRoutingDelegateStr ov f = Some (v, g)"
    with both show "rd_out ov (buffer f) (fsize f) (cache f) = Some (v, cache g) \<and> after f (cache g) g"
      by simp
  }
qed

lemma readArg1Str_tail:
  "readArg1Str ov f =
     (case arg1Str (cache f) of
        Some s \<Rightarrow> Some (Some s, f)
      | None \<Rightarrow> do {
          (success, f1) \<leftarrow>
            (if \<not> truthy (csumStartOffset (cache f)) then scanAndSkipHeaders ov f
             else Some (True, f));
          if \<not> success then Some (None, set_lastError ''Could not scan & skip headers'' f1)
          else arg1_tail f1
        })"
  by (simp only: readArg1Str_def arg1_tail_def)

lemma arg1_tail_link:
  "arg1_tail f1 =
     (case arg1_at (buffer f1) (fsize f1) (js_num (csumStartOffset (cache f1))) of
        None \<Rightarrow> None
      | Some (Inl msg) \<Rightarrow>
          Some (None, f1\<lparr>cache := (cache f1)\<lparr>lastError := Some msg\<rparr>,
                         nreads := nreads f1 + (if msg = ''Could not read csum type'' then 0
                            else if msg = ''Could not read arg1 size'' then 1 else 2)\<rparr>)
      | Some (Inr s) \<Rightarrow>
          Some (Some s, f1\<lparr>cache := (cache f1)\<lparr>arg1Str := Some s\<rparr>, nreads := nreads f1 + 3\<rparr>))"
proof -
  let ?off = "js_num (csumStartOffset (cache f1))"
  let ?t = "unat (buffer f1 ! ?off)"
  have tail: "arg1_tail f1 =
     (if fsize f1 < ?off + 1 then Some (None, set_lastError ''Could not read csum type'' f1)
      else if length (buffer f1) < ?off + 1 then None
      else
        (case (if ?t \<noteq> Checksum_Types_None
               then map_option (\<lambda>w. ?off + 1 + w) (Checksum_offsetWidth ?t)
               else Some (?off + 1)) of
           None \<Rightarrow> None
         | Some off2 \<Rightarrow>
             if fsize f1 < off2 + 2
             then Some (None, set_lastError ''Could not read arg1 size'' (f1\<lparr>nreads := nreads f1 + 1\<rparr>))
             else if length (buffer f1) < off2 + 2 then None
             else if fsize f1 < off2 + 2 + u16be_at (buffer f1) off2
               then Some (None, set_lastError ''Could not read arg1 itself'' (f1\<lparr>nreads := nreads f1 + 2\<rparr>))
             else Some (Some (utf8_decode (take (u16be_at (buffer f1) off2) (drop (off2 + 2) (buffer f1)))),
                        f1\<lparr>nreads := nreads f1 + 3,
                           cache := (cache f1)\<lparr>arg1Str := Some (utf8_decode
                              (take (u16be_at (buffer f1) off2) (drop (off2 + 2) (buffer f1))))\<rparr>\<rparr>)))"
    by (simp add: arg1_tail_def readUInt8_def readUInt16BE_eq fastBufferToString_def Let_def
        split: option.splits)
  show ?thesis
    unfolding tail arg1_at_def
    by (simp add: set_lastError_def split: option.splits)
qed

lemma arg1_tail_after:
  "(arg1_tail f1 = None \<longrightarrow> arg1_at (buffer f1) (fsize f1) (js_num (csumStartOffset (cache f1))) = None)
   \<and> (arg1_tail f1 = Some (v, g) \<longrightarrow>
        (case arg1_at (buffer f1) (fsize f1) (js_num (csumStartOffset (cache f1))) of
           None \<Rightarrow> False
         | Some (Inl msg) \<Rightarrow> v = None \<and> after f1 ((cache f1)\<lparr>lastError := Some msg\<rparr>) g
         | Some (Inr s) \<Rightarrow> v = Some s \<and> after f1 ((cache f1)\<lparr>arg1Str := Some s\<rparr>) g))"
proof (cases "arg1_at (buffer f1) (fsize f1) (js_num (csumStartOffset (cache f1)))")
  case None
  then show ?thesis by (simp add: arg1_tail_link)
next
  case (Some x)
  show ?thesis
  proof (cases x)
    case (Inl msg)
    show ?thesis unfolding arg1_tail_link Some Inl by (auto simp: after_def)
  next
    case (Inr s)
    show ?thesis unfolding arg1_tail_link Some Inr by (auto simp: after_def)
  qed
qed

lemma after_trans: "after f c g \<Longrightarrow> after g c' h \<Longrightarrow> after f c' h"
  by (simp add: after_def)

lemma links_readArg1Str: "links (readArg1Str ov) (arg1_out ov)"
proof (rule linksI)
  fix f :: frame
  fix v :: "jsstring option" and g :: frame
  let ?need = "\<not> truthy (csumStartOffset (cache f))"
  let ?scan = "if ?need then scanAndSkipHeaders ov f else Some (True, f)"
  have both: "(readArg1Str ov f = None \<longrightarrow> arg1_out ov (buffer f) (fsize f) (cache f) = None)
      \<and> (readArg1Str ov f = Some (v, g) \<longrightarrow>
           arg1_out ov (buffer f) (fsize f) (cache f) = Some (v, cache g) \<and> after f (cache g) g)"
  proof (cases "arg1Str (cache f)")
    case (Some s)
    then have "readArg1Str ov f = Some (Some s, f)"
      "arg1_out ov (buffer f) (fsize f) (cache f) = Some (Some s, cache f)"
      by (simp_all add: readArg1Str_tail arg1_out_def)
    then show ?thesis by (auto simp: after_def)
  next
    case None
    show ?thesis
    proof (cases ?scan)
      case n: None
      have "readArg1Str ov f = None" using None n by (simp add: readArg1Str_tail)
      moreover have "arg1_out ov (buffer f) (fsize f) (cache f) = None"
        using links_throw [OF links_scan n] None by (simp add: arg1_out_def)
      ultimately show ?thesis by simp
    next
      case (Some p)
      obtain success f1 where p: "p = (success, f1)" by (cases p)
      have sc: "?scan = Some (success, f1)" using Some p by simp
      note sl = links_result [OF links_scan sc]
      have b: "buffer f1 = buffer f" "fsize f1 = fsize f" "nreads f \<le> nreads f1"
        using sl(2) by (simp_all add: after_def)
      show ?thesis
      proof (cases success)
        case False
        have r: "readArg1Str ov f = Some (None, set_lastError ''Could not scan & skip headers'' f1)"
          using None sc False by (simp add: readArg1Str_tail)
        have o: "arg1_out ov (buffer f) (fsize f) (cache f)
            = Some (None, (cache f1)\<lparr>lastError := Some ''Could not scan & skip headers''\<rparr>)"
          using None sl(1) False by (simp add: arg1_out_def)
        show ?thesis unfolding r o using b by (auto simp: set_lastError_def after_def)
      next
        case True
        have r: "readArg1Str ov f = arg1_tail f1"
          using None sc True by (simp add: readArg1Str_tail)
        have o: "arg1_out ov (buffer f) (fsize f) (cache f)
            = (case arg1_at (buffer f1) (fsize f1) (js_num (csumStartOffset (cache f1))) of
                    None \<Rightarrow> None
                  | Some (Inl msg) \<Rightarrow> Some (None, (cache f1)\<lparr>lastError := Some msg\<rparr>)
                  | Some (Inr s) \<Rightarrow> Some (Some s, (cache f1)\<lparr>arg1Str := Some s\<rparr>))"
          using None sl(1) True b by (simp add: arg1_out_def)
        show ?thesis
          unfolding r o using arg1_tail_after [of f1 v g] b
          by (auto simp: after_def split: option.splits sum.splits)
      qed
    qed
  qed
  {
    assume "readArg1Str ov f = None"
    with both show "arg1_out ov (buffer f) (fsize f) (cache f) = None" by simp
  }
  {
    assume "readArg1Str ov f = Some (v, g)"
    with both show "arg1_out ov (buffer f) (fsize f) (cache f) = Some (v, cache g) \<and> after f (cache g) g"
      by simp
  }
qed

lemma ttl_out_again:
  "ttl_out ov buf sz c = Some (v, c') \<Longrightarrow> ttl_out ov buf sz c' = Some (v, c')"
  by (auto simp: ttl_out_def split: option.splits if_splits)


lemma hso_cache_idem [simp]: "hso_cache ov buf sz (hso_cache ov buf sz c) = hso_cache ov buf sz c"
  by (simp add: hso_cache_def truthy_def)

lemma hso_val_cache:
  "hso_val ov buf sz c = Some h \<Longrightarrow> hso_val ov buf sz (hso_cache ov buf sz c) = Some h"
  by (auto simp: hso_val_def hso_cache_def truthy_def split: if_splits)

lemma service_out_again:
  assumes "service_out ov buf sz c = Some (v, c')"
  shows "service_out ov buf sz c' = Some (v, c')"
proof (cases "serviceStr c")
  case (Some s)
  with assms have "v = Some s" "c' = c" by (simp_all add: service_out_def)
  then show ?thesis using Some by (simp add: service_out_def)
next
  case None
  from assms None obtain h where h: "hso_val ov buf sz c = Some h"
    by (auto simp: service_out_def split: option.splits)
  show ?thesis
  proof (cases "h = 0 \<or> sz < h")
    case True
    with assms None h have "v = None" "c' = hso_cache ov buf sz c"
      by (auto simp: service_out_def)
    then show ?thesis using None h True hso_val_cache [OF h] by (simp add: service_out_def)
  next
    case False
    with assms None h show ?thesis by (auto simp: service_out_def)
  qed
qed

lemma scan_val_Some_pos:
  assumes "scan_val ov buf sz c = Some (Some (off, cn, rd))"
  shows "0 < off" "off \<le> sz" "cn = 0 \<or> cn < sz" "rd = 0 \<or> rd < sz"
proof -
  from assms obtain h where h: "hso_val ov buf sz c = Some h" "h \<noteq> 0" "\<not> sz < h + 1"
    and s: "scan_pure buf sz (unat (buf ! h)) (h + 1) 0 0 = Some (Some (off, cn, rd))"
    by (auto simp: scan_val_def split: option.splits if_splits)
  from scan_pure_bounds [OF s] h
  show "0 < off" "off \<le> sz" "cn = 0 \<or> cn < sz" "rd = 0 \<or> rd < sz" by auto
qed


















lemmas lazy_defs = readTTL_def readTracingValue_def findHeaderStartOffset_def readServiceStr_def
  keyValue_or_read_def matchKeys_def scanHeader_def scanAndSkipHeaders_def readUInt8String_def
  falsy_str_def readCallerNameStr_def readRoutingDelegateStr_def set_lastError_def js_num_def
  readArg1Str_def readUInt8_def readUInt16BE_def readUInt32BE_def fastBufferToString_def truthy_def
  flagsOffset_def ttlOffset_def tracingOffset_def serviceOffset_def CN_VALUE_def RD_VALUE_def
  Checksum_Types_None_def Checksum_offsetWidth_def empty_cache_def utf8_decode_def
  utf8_step_def cont_at_def fresh_frame_def call_twice_def

lemma scanLoop_pos:
  "n \<noteq> 0 \<Longrightarrow> scanLoop n f offset cnOff rdOff = scanLoop (Suc (n - 1)) f offset cnOff rdOff"
  by simp

lemma t1: "map_option fst (readTTL 0 (fresh_frame duplicate_cn)) = Some 1"
  by (simp add: lazy_defs duplicate_cn_def)

lemma t3: "map_option fst (readCallerNameStr 0 (fresh_frame duplicate_cn)) = Some (Some [102, 105, 114, 115, 116])"
  by (simp add: lazy_defs duplicate_cn_def scanLoop_pos del: One_nat_def)

lemma t4: "map_option (nreads \<circ> snd) (readCallerNameStr 0 (fresh_frame duplicate_cn)) = Some 10"
  by (simp add: lazy_defs duplicate_cn_def scanLoop_pos del: One_nat_def)

lemma t5: "map_option (nreads \<circ> snd) (call_twice (readCallerNameStr 0) (fresh_frame duplicate_cn)) = Some 10"
  by (simp add: lazy_defs duplicate_cn_def scanLoop_pos del: One_nat_def)

lemma t6: "map_option (nreads \<circ> snd) (call_twice (readArg1Str 0) (fresh_frame (take 56 duplicate_cn))) = Some 10"
  by (simp add: lazy_defs duplicate_cn_def scanLoop_pos del: One_nat_def)

lemma t7: "map_option (nreads \<circ> snd) (readArg1Str 0 (fresh_frame (take 56 duplicate_cn))) = Some 9"
  by (simp add: lazy_defs duplicate_cn_def scanLoop_pos del: One_nat_def)







lemma offsets_in_frame_other [simp]:
  "offsets_in_frame ov buf sz (c\<lparr>ttlValue := a\<rparr>) = offsets_in_frame ov buf sz c"
  "offsets_in_frame ov buf sz (c\<lparr>tracingValue := b\<rparr>) = offsets_in_frame ov buf sz c"
  "offsets_in_frame ov buf sz (c\<lparr>serviceStr := s\<rparr>) = offsets_in_frame ov buf sz c"
  "offsets_in_frame ov buf sz (c\<lparr>callerNameStr := s\<rparr>) = offsets_in_frame ov buf sz c"
  "offsets_in_frame ov buf sz (c\<lparr>routingDelegateStr := s\<rparr>) = offsets_in_frame ov buf sz c"
  "offsets_in_frame ov buf sz (c\<lparr>arg1Str := s\<rparr>) = offsets_in_frame ov buf sz c"
  "offsets_in_frame ov buf sz (c\<lparr>lastError := e\<rparr>) = offsets_in_frame ov buf sz c"
  by (simp_all add: offsets_in_frame_def)

lemma offsets_hso_cache:
  "offsets_in_frame ov buf sz c \<Longrightarrow> offsets_in_frame ov buf sz (hso_cache ov buf sz c)"
  by (auto simp: offsets_in_frame_def hso_cache_def split: option.splits)

lemma offsets_scan_cache:
  assumes "offsets_in_frame ov buf sz c" "scan_val ov buf sz c = Some r"
  shows "offsets_in_frame ov buf sz (scan_cache ov buf sz c r)"
proof (cases r)
  case None
  with offsets_hso_cache [OF assms(1)] show ?thesis by (simp add: scan_cache_def)
next
  case (Some t)
  obtain off cn rd where t: "t = (off, cn, rd)" by (cases t)
  note p = scan_val_Some_pos [OF assms(2) [unfolded Some t]]
  have h: "offsets_in_frame ov buf sz (hso_cache ov buf sz c)"
    by (rule offsets_hso_cache [OF assms(1)])
  show ?thesis using h p unfolding Some t scan_cache_def
    by (simp add: offsets_in_frame_def)
qed

lemma offsets_scan_if:
  assumes "offsets_in_frame ov buf sz c" "scan_if need ov buf sz c = Some (b, c1)"
  shows "offsets_in_frame ov buf sz c1"
proof (cases need)
  case True
  with assms(2) obtain r where "scan_val ov buf sz c = Some r" "c1 = scan_cache ov buf sz c r"
    by (auto simp: scan_if_def)
  with offsets_scan_cache [OF assms(1)] show ?thesis by simp
next
  case False
  with assms show ?thesis by (simp add: scan_if_def)
qed

lemma offsets_ttl_out:
  "ttl_out ov buf sz c = Some (v, c') \<Longrightarrow> offsets_in_frame ov buf sz c \<Longrightarrow>
   offsets_in_frame ov buf sz c'"
  by (auto simp: ttl_out_def split: option.splits if_splits)

lemma offsets_tracing_out:
  "tracing_out ov buf sz c = Some (v, c') \<Longrightarrow> offsets_in_frame ov buf sz c \<Longrightarrow>
   offsets_in_frame ov buf sz c'"
  by (auto simp: tracing_out_def split: option.splits if_splits)

lemma offsets_service_out:
  "service_out ov buf sz c = Some (v, c') \<Longrightarrow> offsets_in_frame ov buf sz c \<Longrightarrow>
   offsets_in_frame ov buf sz c'"
  using offsets_hso_cache [of ov buf sz c]
  by (auto simp: service_out_def split: option.splits if_splits)

lemma offsets_cn_out:
  assumes "cn_out ov buf sz c = Some (v, c')" "offsets_in_frame ov buf sz c"
  shows "offsets_in_frame ov buf sz c'"
proof (cases "callerNameStr c")
  case (Some s)
  with assms show ?thesis by (auto simp: cn_out_def)
next
  case None
  from assms(1) None obtain b c1 where
    s: "scan_if (cnValueOffset c = None) ov buf sz c = Some (b, c1)"
    by (auto simp: cn_out_def split: option.splits)
  note i = offsets_scan_if [OF assms(2) s]
  from assms(1) None s have "c' = c1 \<or> (\<exists>x. c' = c1\<lparr>callerNameStr := x\<rparr>)"
    by (auto simp: cn_out_def split: option.splits if_splits)
  with i show ?thesis by auto
qed

lemma offsets_rd_out:
  assumes "rd_out ov buf sz c = Some (v, c')" "offsets_in_frame ov buf sz c"
  shows "offsets_in_frame ov buf sz c'"
proof (cases "routingDelegateStr c")
  case (Some s)
  with assms show ?thesis by (auto simp: rd_out_def)
next
  case None
  from assms(1) None obtain b c1 where
    s: "scan_if (rdValueOffset c = None) ov buf sz c = Some (b, c1)"
    by (auto simp: rd_out_def split: option.splits)
  note i = offsets_scan_if [OF assms(2) s]
  from assms(1) None s have "c' = c1 \<or> (\<exists>x. c' = c1\<lparr>routingDelegateStr := x\<rparr>)"
    by (auto simp: rd_out_def split: option.splits if_splits)
  with i show ?thesis by auto
qed

lemma offsets_arg1_out:
  assumes "arg1_out ov buf sz c = Some (v, c')" "offsets_in_frame ov buf sz c"
  shows "offsets_in_frame ov buf sz c'"
proof (cases "arg1Str c")
  case (Some s)
  with assms show ?thesis by (auto simp: arg1_out_def)
next
  case None
  from assms(1) None obtain b c1 where
    s: "scan_if (\<not> truthy (csumStartOffset c)) ov buf sz c = Some (b, c1)"
    by (auto simp: arg1_out_def split: option.splits)
  note i = offsets_scan_if [OF assms(2) s]
  from assms(1) None s
  have "(\<exists>x. c' = c1\<lparr>lastError := x\<rparr>) \<or> (\<exists>x. c' = c1\<lparr>arg1Str := x\<rparr>)"
    by (auto simp: arg1_out_def split: option.splits if_splits sum.splits)
  with i show ?thesis by auto
qed

lemma links_offsets:
  assumes l: "links R P"
    and p: "\<And>buf sz c v c'. P buf sz c = Some (v, c') \<Longrightarrow> offsets_in_frame ov buf sz c \<Longrightarrow>
              offsets_in_frame ov buf sz c'"
    and r: "map_option snd (R f) = Some g"
    and i: "offsets_in_frame ov (buffer f) (fsize f) (cache f)"
  shows "offsets_in_frame ov (buffer g) (fsize g) (cache g) \<and> buffer g = buffer f \<and> fsize g = fsize f"
proof -
  from r obtain v where "R f = Some (v, g)" by (cases "R f") auto
  note a = links_result [OF l this]
  from p [OF a(1) i] a(2) show ?thesis by (simp add: after_def)
qed

lemma call_accessor_offsets:
  assumes "call_accessor ov a f = Some g" "offsets_in_frame ov (buffer f) (fsize f) (cache f)"
  shows "offsets_in_frame ov (buffer g) (fsize g) (cache g) \<and> buffer g = buffer f \<and> fsize g = fsize f"
proof (cases a)
  case ReadTTL
  with assms(1) have "map_option snd (readTTL ov f) = Some g" by (simp add: call_accessor_def)
  from links_offsets [OF links_readTTL offsets_ttl_out this assms(2)] show ?thesis .
next
  case ReadTracingValue
  with assms(1) have "map_option snd (readTracingValue ov f) = Some g"
    by (simp add: call_accessor_def)
  from links_offsets [OF links_readTracingValue offsets_tracing_out this assms(2)] show ?thesis .
next
  case ReadServiceStr
  with assms(1) have "map_option snd (readServiceStr ov f) = Some g"
    by (simp add: call_accessor_def)
  from links_offsets [OF links_readServiceStr offsets_service_out this assms(2)] show ?thesis .
next
  case ReadCallerNameStr
  with assms(1) have "map_option snd (readCallerNameStr ov f) = Some g"
    by (simp add: call_accessor_def)
  from links_offsets [OF links_readCallerNameStr offsets_cn_out this assms(2)] show ?thesis .
next
  case ReadRoutingDelegateStr
  with assms(1) have "map_option snd (readRoutingDelegateStr ov f) = Some g"
    by (simp add: call_accessor_def)
  from links_offsets [OF links_readRoutingDelegateStr offsets_rd_out this assms(2)] show ?thesis .
next
  case ReadArg1Str
  with assms(1) have "map_option snd (readArg1Str ov f) = Some g"
    by (simp add: call_accessor_def)
  from links_offsets [OF links_readArg1Str offsets_arg1_out this assms(2)] show ?thesis .
qed

lemma call_accessors_offsets:
  "call_accessors ov as f = Some g \<Longrightarrow> offsets_in_frame ov (buffer f) (fsize f) (cache f) \<Longrightarrow>
   offsets_in_frame ov (buffer g) (fsize g) (cache g) \<and> buffer g = buffer f \<and> fsize g = fsize f"
proof (induction as arbitrary: f)
  case Nil
  then show ?case by simp
next
  case (Cons a as)
  from Cons.prems(1) obtain f1 where 1: "call_accessor ov a f = Some f1"
    and 2: "call_accessors ov as f1 = Some g"
    by (auto split: option.splits)
  note s = call_accessor_offsets [OF 1 Cons.prems(2)]
  from s have i: "offsets_in_frame ov (buffer f1) (fsize f1) (cache f1)" by (rule conjunct1)
  from Cons.IH [OF 2 i] s show ?case by auto
qed

lemma offsets_empty_cache: "offsets_in_frame ov buf sz empty_cache"
  by (simp add: offsets_in_frame_def empty_cache_def)

text \<open>
  C4, where the header start offset lies beyond the frame. On the frame of S3 cut after the
  length byte of the service, \<open>readServiceStr\<close> caches the header start offset 34 in a
  frame of size 31.
\<close>

theorem header_start_beyond_frame:
  "fsize (fresh_frame (take 31 duplicate_cn)) = 31
   \<and> map_option (headerStartOffset \<circ> cache \<circ> snd) (readServiceStr 0 (fresh_frame (take 31 duplicate_cn)))
       = Some (Some 34)"
  by (simp add: lazy_defs duplicate_cn_def)

text \<open>
  C4. Cache offset invariant. After any sequence of lazy accessor calls on a frame whose
  cache was empty, or held offsets of this kind, a cached \<open>cnValueOffset\<close> or
  \<open>rdValueOffset\<close> is 0 or the offset of a byte of the frame, and a cached
  \<open>csumStartOffset\<close> is at most the size of the frame. A cached \<open>headerStartOffset\<close> is the
  offset after the service string as the length byte of the service declares it, whether
  or not the frame reaches that far. The calls leave the buffer and the size as they are.
\<close>

theorem cache_offsets_invariant:
  assumes "call_accessors ov as f = Some g"
    and "cache f = empty_cache \<or> offsets_in_frame ov (buffer f) (fsize f) (cache f)"
  shows "buffer g = buffer f \<and> fsize g = fsize f
     \<and> (case cnValueOffset (cache g) of None \<Rightarrow> True | Some off \<Rightarrow> off = 0 \<or> off < fsize f)
     \<and> (case rdValueOffset (cache g) of None \<Rightarrow> True | Some off \<Rightarrow> off = 0 \<or> off < fsize f)
     \<and> (case csumStartOffset (cache g) of None \<Rightarrow> True | Some off \<Rightarrow> 0 < off \<and> off \<le> fsize f)
     \<and> (case headerStartOffset (cache g) of
          None \<Rightarrow> True
        | Some h \<Rightarrow> serviceOffset ov < fsize f
                   \<and> h = serviceOffset ov + unat (buffer f ! serviceOffset ov) + 1)"
proof -
  have i: "offsets_in_frame ov (buffer f) (fsize f) (cache f)"
    using assms(2) offsets_empty_cache [of ov "buffer f" "fsize f"] by auto
  note r = call_accessors_offsets [OF assms(1) i]
  from r have e: "buffer g = buffer f" "fsize g = fsize f" by simp_all
  from r have "offsets_in_frame ov (buffer f) (fsize f) (cache g)" unfolding e by simp
  then show ?thesis using e by (simp add: offsets_in_frame_def)
qed

lemma all_accessors_on_duplicate_cn:
  "map_option cache (call_accessors 0
      [ReadArg1Str, ReadCallerNameStr, ReadRoutingDelegateStr, ReadServiceStr, ReadTTL,
       ReadTracingValue]
      (fresh_frame duplicate_cn))
   = Some \<lparr>ttlValue = Some 1,
            tracingValue = Some \<lparr>spanid = (0, 0), parentid = (0, 0), traceid = (0, 0),
                                  traceflags = 0\<rparr>,
            serviceStr = Some [115, 118, 99],
            callerNameStr = Some [102, 105, 114, 115, 116], routingDelegateStr = None,
            arg1Str = Some [], headerStartOffset = Some 34, csumStartOffset = Some 54,
            cnValueOffset = Some 38, rdValueOffset = Some 0, lastError = None\<rparr>"
  by (simp add: call_accessor_def lazy_defs duplicate_cn_def scanLoop_pos Let_def
      del: One_nat_def)

theorem cache_offsets_invariant_witness:
  "\<exists>g. call_accessors 0
      [ReadArg1Str, ReadCallerNameStr, ReadRoutingDelegateStr, ReadServiceStr, ReadTTL,
       ReadTracingValue]
      (fresh_frame duplicate_cn) = Some g
    \<and> fsize g = 57 \<and> cnValueOffset (cache g) = Some 38 \<and> rdValueOffset (cache g) = Some 0
    \<and> csumStartOffset (cache g) = Some 54 \<and> headerStartOffset (cache g) = Some 34"
proof -
  let ?as = "[ReadArg1Str, ReadCallerNameStr, ReadRoutingDelegateStr, ReadServiceStr, ReadTTL,
       ReadTracingValue]"
  from all_accessors_on_duplicate_cn obtain g where
    g: "call_accessors 0 ?as (fresh_frame duplicate_cn) = Some g"
    and c: "cnValueOffset (cache g) = Some 38" "rdValueOffset (cache g) = Some 0"
      "csumStartOffset (cache g) = Some 54" "headerStartOffset (cache g) = Some 34"
    by (cases "call_accessors 0 ?as (fresh_frame duplicate_cn)") auto
  have e: "cache (fresh_frame duplicate_cn) = empty_cache" by (simp add: fresh_frame_def)
  from cache_offsets_invariant [OF g disjI1 [OF e]]
  have "fsize g = fsize (fresh_frame duplicate_cn)" by simp
  then have "fsize g = 57" by (simp add: fresh_frame_def duplicate_cn_def)
  with g c show ?thesis by blast
qed

end
